theory Spec2Isabelle
  imports Main "HOL-Library.Word"
begin

unbundle bit_operations_syntax

section \<open>Machine words, bytes and memory\<close>

type_synonym u8 = "8 word"
type_synonym u32 = "32 word"
type_synonym u64 = "64 word"

text \<open>Memory is byte addressed by 64-bit pointers; pointer arithmetic wraps like the
  unsigned 64-bit arithmetic the compiled code performs.\<close>

type_synonym memory = "u64 \<Rightarrow> u8"

text \<open>The targets (AVX2, AVX512F) are little-endian: a 32-bit or 64-bit load assembles
  the bytes from the lowest address upwards.\<close>

definition le_bytes32 :: "u32 \<Rightarrow> u8 list" where
  "le_bytes32 w = [ucast w, ucast (drop_bit 8 w), ucast (drop_bit 16 w), ucast (drop_bit 24 w)]"

definition word32_of :: "u8 \<Rightarrow> u8 \<Rightarrow> u8 \<Rightarrow> u8 \<Rightarrow> u32" where
  "word32_of b0 b1 b2 b3 =
     ucast b0 OR push_bit 8 (ucast b1) OR push_bit 16 (ucast b2) OR push_bit 24 (ucast b3)"

definition le_bytes64 :: "u64 \<Rightarrow> u8 list" where
  "le_bytes64 w = map (\<lambda>k. ucast (drop_bit (8 * k) w)) [0..<8]"

definition word64_of :: "u8 list \<Rightarrow> u64" where
  "word64_of bs = foldr (\<lambda>b acc. ucast b OR push_bit 8 acc) (take 8 bs) 0"


text \<open>\<open>*(mshabal_u32 *)(buf + ofs)\<close> on a local byte array.\<close>

definition ld32 :: "u8 list \<Rightarrow> nat \<Rightarrow> u32" where
  "ld32 buf ofs = word32_of (buf ! ofs) (buf ! (ofs + 1)) (buf ! (ofs + 2)) (buf ! (ofs + 3))"

definition load_bytes :: "memory \<Rightarrow> u64 \<Rightarrow> nat \<Rightarrow> u8 list" where
  "load_bytes m p n = map (\<lambda>k. m (p + of_nat k)) [0..<n]"

definition store_bytes :: "u64 \<Rightarrow> u8 list \<Rightarrow> memory \<Rightarrow> memory" where
  "store_bytes p bs m = (\<lambda>a. if unat (a - p) < length bs then bs ! unat (a - p) else m a)"

definition load32 :: "memory \<Rightarrow> u64 \<Rightarrow> u32" where
  "load32 m p = word32_of (m p) (m (p + 1)) (m (p + 2)) (m (p + 3))"

definition load_words :: "memory \<Rightarrow> u64 \<Rightarrow> nat \<Rightarrow> u32 list" where
  "load_words m p n = map (\<lambda>j. load32 m (p + of_nat (4 * j))) [0..<n]"

definition store_words :: "u64 \<Rightarrow> u32 list \<Rightarrow> memory \<Rightarrow> memory" where
  "store_words p ws m = store_bytes p (concat (map le_bytes32 ws)) m"

definition load64 :: "memory \<Rightarrow> u64 \<Rightarrow> u64" where
  "load64 m p = word64_of (load_bytes m p 8)"

definition store64 :: "u64 \<Rightarrow> u64 \<Rightarrow> memory \<Rightarrow> memory" where
  "store64 p v m = store_bytes p (le_bytes64 v) m"

text \<open>The addresses of the n bytes at p.\<close>

definition region :: "u64 \<Rightarrow> nat \<Rightarrow> u64 set" where
  "region p n = {a. unat (a - p) < n}"

text \<open>\<open>for (j = lo; j < hi; j += st)\<close>: the values the counter takes, in order.\<close>

definition range_step :: "nat \<Rightarrow> nat \<Rightarrow> nat \<Rightarrow> nat list" where
  "range_step lo hi st = map (\<lambda>q. lo + q * st) [0..<(hi + st - 1 - lo) div st]"

section \<open>common.h\<close>

text \<open>Modelled from the spec: the constants of common.h, which is not among the sources
  (spec section 6: HASH_SIZE = 32, NONCE_SIZE = 262144, HASH_CAP = 4096, SCOOP_SIZE = 64).\<close>

definition HASH_SIZE :: nat where "HASH_SIZE = 32"
definition HASH_CAP :: nat where "HASH_CAP = 4096"
definition SCOOP_SIZE :: nat where "SCOOP_SIZE = 64"
definition NONCE_SIZE :: nat where "NONCE_SIZE = HASH_CAP * SCOOP_SIZE"

text \<open>\<open>bswap_64\<close> of byteswap.h: the eight bytes in reverse order.\<close>

definition bswap_64 :: "u64 \<Rightarrow> u64" where
  "bswap_64 w = word64_of (rev (le_bytes64 w))"

text \<open>Modelled from the spec: write_seed and write_term of common.c, which is not among
  the sources. The seed block is (spec section 3) the "big-endian 64-bit numeric
  identifier, big-endian 64-bit nonce index, 16 bytes of zero"; write_seed is given the
  identifier only, and the eight bytes of the nonce index, which the batch loop rewrites
  for every lane, are zero when it returns. \<open>term\<close> is (spec section 4.3, step 5) the
  terminator "0x80 || 0x00\<dots>" of 32 bytes.\<close>

definition write_seed :: "u64 \<Rightarrow> u8 list" where
  "write_seed numeric_id = le_bytes64 (bswap_64 numeric_id) @ replicate 8 0 @ replicate 16 0"

definition write_term :: "u8 list" where
  "write_term = 0x80 # replicate 31 0"

text \<open>Modelled from the spec: the macro SET_BEST_DEADLINE(d, o) of common.h, which is not
  among the sources (spec section 4.5, step 4): "if best_deadline is zero (uninitialized)
  or d_b < best_deadline, set best_deadline = d_b and best_offset = i + b". The macro
  reads and writes through the pointers best_deadline and best_offset of the enclosing
  function.\<close>

definition SET_BEST_DEADLINE :: "u64 \<Rightarrow> u64 \<Rightarrow> u64 \<Rightarrow> u64 \<Rightarrow> memory \<Rightarrow> memory" where
  "SET_BEST_DEADLINE best_deadline best_offset d ofs m =
     (if load64 m best_deadline = 0 \<or> d < load64 m best_deadline
      then store64 best_offset ofs (store64 best_deadline d m)
      else m)"

section \<open>Nonce generation\<close>

text \<open>The three termination strings are arrays of 16 * B 32-bit words, B the number of
  lanes (MSHABAL256_VECTOR_SIZE = 8 in noncegen_avx2, MSHABAL512_VECTOR_SIZE = 16 in
  noncegen_avx512f, as the unrolled lane assignments show). Word w of lane b is at index
  w * B + b.\<close>

datatype tmpl = T1 | T2 | T3

datatype dest = Cache nat | Final

text \<open>The arguments of one call of mshabal_hash_fast: the message as an offset from the
  pointer \<open>cache\<close> (None for NULL), the termination string, the destination (an offset
  from \<open>cache\<close>, or the buffer \<open>final\<close>) and the number of 64-byte blocks of the
  message.\<close>

record hash_call =
  message :: "nat option"
  tmpl :: tmpl
  dst :: dest
  len :: nat

text \<open>The state of noncegen: the memory, the pointer \<open>cache\<close> (advanced after every
  batch), the local termination strings, the local copy of the fast context and the
  buffer \<open>final\<close>. \<open>hash_log\<close> records every call of mshabal_hash_fast, with the
  context it was given; the code has no such variable and nothing reads it.\<close>

record 'c ngstate =
  mem :: memory
  cache :: u64
  t1 :: "nat \<Rightarrow> u32"
  t2 :: "nat \<Rightarrow> u32"
  t3 :: "nat \<Rightarrow> u32"
  local_fast :: 'c
  final :: "u32 list"
  hash_log :: "('c \<times> hash_call) list"

text \<open>The loop that fills the termination strings. In noncegen_avx2 the byte offset is
  \<open>o = j / 2\<close> and the second half starts at word 64, in noncegen_avx512f they are
  \<open>o = j / 4\<close> and 128: \<open>j div (B div 4)\<close> and \<open>8 * B\<close>.\<close>

definition prepare_lane :: "u8 list \<Rightarrow> u8 list \<Rightarrow> u8 list \<Rightarrow> nat \<Rightarrow> nat \<Rightarrow> nat \<Rightarrow> nat
    \<Rightarrow> 'c ngstate \<Rightarrow> 'c ngstate" where
  "prepare_lane seed trm zero B j ofs k s =
     s\<lparr>t1 := (t1 s)(j + k := ld32 seed ofs, j + k + 8 * B := ld32 zero ofs),
       t2 := (t2 s)(j + k + 8 * B := ld32 seed ofs),
       t3 := (t3 s)(j + k := ld32 trm ofs, j + k + 8 * B := ld32 zero ofs)\<rparr>"

definition prepare_templates :: "nat \<Rightarrow> u8 list \<Rightarrow> u8 list \<Rightarrow> u8 list \<Rightarrow> 'c ngstate \<Rightarrow> 'c ngstate" where
  "prepare_templates B seed trm zero s =
     fold (\<lambda>j. fold (prepare_lane seed trm zero B j (j div (B div 4))) [0..<B])
       (range_step 0 (16 * B div 2) B) s"

text \<open>The loop that stores the nonce numbers of the batch: lane k gets
  \<open>bswap_64 (local_startnonce + n + k)\<close>, read as two 32-bit words at offsets
  \<open>o = j / 2 - 8\<close> (AVX2, j from 16) and \<open>o = j / 4 - 8\<close> (AVX512F, j from 32).\<close>

definition patch_lane :: "u64 \<Rightarrow> u64 \<Rightarrow> nat \<Rightarrow> nat \<Rightarrow> nat \<Rightarrow> nat \<Rightarrow> 'c ngstate \<Rightarrow> 'c ngstate" where
  "patch_lane local_startnonce n B j ofs k s =
     (let nonce = bswap_64 (local_startnonce + n + of_nat k) in
      s\<lparr>t1 := (t1 s)(j + k := ld32 (le_bytes64 nonce) ofs),
        t2 := (t2 s)(j + k + 8 * B := ld32 (le_bytes64 nonce) ofs)\<rparr>)"

definition patch_nonces :: "nat \<Rightarrow> u64 \<Rightarrow> u64 \<Rightarrow> 'c ngstate \<Rightarrow> 'c ngstate" where
  "patch_nonces B local_startnonce n s =
     fold (\<lambda>j. fold (patch_lane local_startnonce n B j (j div (B div 4) - 8)) [0..<B])
       (range_step (2 * B) (16 * B div 4) B) s"

definition tmpl_words :: "nat \<Rightarrow> 'c ngstate \<Rightarrow> tmpl \<Rightarrow> u32 list" where
  "tmpl_words B s T = map (case T of T1 \<Rightarrow> t1 s | T2 \<Rightarrow> t2 s | T3 \<Rightarrow> t3 s) [0..<16 * B]"

text \<open>mshabal_hash_fast_avx2 and mshabal_hash_fast_avx512f are not among the sources: the
  compression is the parameter \<open>h\<close>, a function of the context, of the \<open>len\<close> blocks
  of 64 bytes per lane read at the message pointer and of the termination string, which
  returns the context it leaves behind and the eight output vectors of B words. The
  output goes to the destination; the only NULL message of the code comes with
  \<open>len = 0\<close>.\<close>

definition mshabal_hash_fast ::
  "('c \<Rightarrow> u32 list \<Rightarrow> u32 list \<Rightarrow> 'c \<times> (nat \<Rightarrow> u32)) \<Rightarrow> nat \<Rightarrow> hash_call
    \<Rightarrow> 'c ngstate \<Rightarrow> 'c ngstate" where
  "mshabal_hash_fast h B c s =
     (let msg = (case message c of
                   None \<Rightarrow> []
                 | Some p \<Rightarrow> load_words (mem s) (cache s + of_nat p) (len c * 16 * B));
          r = h (local_fast s) msg (tmpl_words B s (tmpl c));
          out = map (snd r) [0..<8 * B];
          s' = (case dst c of
                  Cache q \<Rightarrow> s\<lparr>mem := store_words (cache s + of_nat q) out (mem s)\<rparr>
                | Final \<Rightarrow> s\<lparr>final := out\<rparr>)
      in s'\<lparr>local_fast := fst r, hash_log := hash_log s @ [(local_fast s, c)]\<rparr>)"

text \<open>Round 1: the nonce numbers, the copy of the global fast context, the first hash
  and its copy into the first half of termination string 2.\<close>

definition round1 ::
  "('c \<Rightarrow> u32 list \<Rightarrow> u32 list \<Rightarrow> 'c \<times> (nat \<Rightarrow> u32)) \<Rightarrow> 'c \<Rightarrow> nat \<Rightarrow> u64 \<Rightarrow> u64
    \<Rightarrow> 'c ngstate \<Rightarrow> 'c ngstate" where
  "round1 h global_fast B local_startnonce n s0 =
     (let s1 = patch_nonces B local_startnonce n s0;
          s2 = s1\<lparr>local_fast := global_fast\<rparr>;
          s3 = mshabal_hash_fast h B
                 \<lparr>message = None, tmpl = T1, dst = Cache (B * (NONCE_SIZE - HASH_SIZE)),
                  len = drop_bit 6 16\<rparr> s2;
          first = load_words (mem s3) (cache s3 + of_nat (B * (NONCE_SIZE - HASH_SIZE)))
                    (B * HASH_SIZE div 4)
      in s3\<lparr>t2 := (\<lambda>j. if j < B * HASH_SIZE div 4 then first ! j else t2 s3 j)\<rparr>)"

text \<open>Rounds 2 to 128. The counter is a multiple of HASH_SIZE above HASH_SIZE, so the
  unsigned subtraction never wraps.\<close>

function early_phase ::
  "('c \<Rightarrow> u32 list \<Rightarrow> u32 list \<Rightarrow> 'c \<times> (nat \<Rightarrow> u32)) \<Rightarrow> nat \<Rightarrow> nat
    \<Rightarrow> 'c ngstate \<Rightarrow> 'c ngstate" where
  "early_phase h B i s =
     (if i > NONCE_SIZE - HASH_CAP
      then early_phase h B (i - HASH_SIZE)
             (if i mod 64 = 0
              then mshabal_hash_fast h B
                     \<lparr>message = Some (i * B), tmpl = T1, dst = Cache ((i - HASH_SIZE) * B),
                      len = drop_bit 6 (NONCE_SIZE + 16 - i)\<rparr> s
              else mshabal_hash_fast h B
                     \<lparr>message = Some (i * B), tmpl = T2, dst = Cache ((i - HASH_SIZE) * B),
                      len = drop_bit 6 (NONCE_SIZE + 16 - i)\<rparr> s)
      else s)"
  by pat_completeness auto
termination
  by (relation "measure (\<lambda>(h, B, i, s). i)") (auto simp: HASH_SIZE_def)

declare early_phase.simps [simp del]

text \<open>Rounds 128 to 8192.\<close>

function sat_phase ::
  "('c \<Rightarrow> u32 list \<Rightarrow> u32 list \<Rightarrow> 'c \<times> (nat \<Rightarrow> u32)) \<Rightarrow> nat \<Rightarrow> nat
    \<Rightarrow> 'c ngstate \<Rightarrow> 'c ngstate" where
  "sat_phase h B i s =
     (if i > 0
      then sat_phase h B (i - HASH_SIZE)
             (mshabal_hash_fast h B
                \<lparr>message = Some (i * B), tmpl = T3, dst = Cache ((i - HASH_SIZE) * B),
                 len = drop_bit 6 HASH_CAP\<rparr> s)
      else s)"
  by pat_completeness auto
termination
  by (relation "measure (\<lambda>(h, B, i, s). i)") (auto simp: HASH_SIZE_def)

declare sat_phase.simps [simp del]

text \<open>The XOR of the final hash into the whole batch: vector j of the cache (B words)
  with vector \<open>j % 8\<close> of \<open>final\<close>.\<close>

definition xor_vector :: "nat \<Rightarrow> nat \<Rightarrow> 'c ngstate \<Rightarrow> 'c ngstate" where
  "xor_vector B j s =
     s\<lparr>mem := store_words (cache s + of_nat (4 * B * j))
               (map2 (XOR) (load_words (mem s) (cache s + of_nat (4 * B * j)) B)
                  (take B (drop (B * (j mod 8)) (final s))))
               (mem s)\<rparr>"

definition xor_pass :: "nat \<Rightarrow> 'c ngstate \<Rightarrow> 'c ngstate" where
  "xor_pass B s = fold (xor_vector B) [0..<8 * 2 * HASH_CAP] s"

text \<open>The hashes of one batch: round 1, rounds 2 to 128, rounds 128 to 8192 and the
  final hash over the whole batch.\<close>

definition hash_rounds ::
  "('c \<Rightarrow> u32 list \<Rightarrow> u32 list \<Rightarrow> 'c \<times> (nat \<Rightarrow> u32)) \<Rightarrow> 'c \<Rightarrow> nat \<Rightarrow> u64 \<Rightarrow> u64
    \<Rightarrow> 'c ngstate \<Rightarrow> 'c ngstate" where
  "hash_rounds h global_fast B local_startnonce n s0 =
     (let s4 = round1 h global_fast B local_startnonce n s0;
          s5 = early_phase h B (NONCE_SIZE - HASH_SIZE) s4;
          s6 = sat_phase h B (NONCE_SIZE - HASH_CAP) s5
      in mshabal_hash_fast h B
           \<lparr>message = Some 0, tmpl = T1, dst = Final,
            len = drop_bit 6 (NONCE_SIZE + 16)\<rparr> s6)"

text \<open>The body of the batch loop: the hashes, the XOR pass and
  \<open>cache += MSHABAL_VECTOR_SIZE * NONCE_SIZE\<close>.\<close>

definition noncegen_batch ::
  "('c \<Rightarrow> u32 list \<Rightarrow> u32 list \<Rightarrow> 'c \<times> (nat \<Rightarrow> u32)) \<Rightarrow> 'c \<Rightarrow> nat \<Rightarrow> u64 \<Rightarrow> u64
    \<Rightarrow> 'c ngstate \<Rightarrow> 'c ngstate" where
  "noncegen_batch h global_fast B local_startnonce n s0 =
     (let s7 = hash_rounds h global_fast B local_startnonce n s0;
          s8 = xor_pass B s7
      in s8\<lparr>cache := cache s8 + of_nat (B * NONCE_SIZE)\<rparr>)"

text \<open>The batch loop \<open>for (uint64_t n = 0; n < local_nonces; n += B)\<close>. The counter is
  a 64-bit word and wraps; a run that never leaves the loop is None.\<close>

partial_function (option) noncegen_loop ::
  "('c \<Rightarrow> u32 list \<Rightarrow> u32 list \<Rightarrow> 'c \<times> (nat \<Rightarrow> u32)) \<Rightarrow> 'c \<Rightarrow> nat \<Rightarrow> u64 \<Rightarrow> u64 \<Rightarrow> u64
    \<Rightarrow> 'c ngstate \<Rightarrow> 'c ngstate option" where
  "noncegen_loop h global_fast B local_startnonce local_nonces n s =
     (if n < local_nonces
      then noncegen_loop h global_fast B local_startnonce local_nonces (n + of_nat B)
             (noncegen_batch h global_fast B local_startnonce n s)
      else Some s)"

text \<open>noncegen_avx2 and noncegen_avx512f. The state at entry holds the memory, the
  pointer \<open>cache\<close> and whatever the uninitialised locals contain.\<close>

definition noncegen ::
  "('c \<Rightarrow> u32 list \<Rightarrow> u32 list \<Rightarrow> 'c \<times> (nat \<Rightarrow> u32)) \<Rightarrow> 'c \<Rightarrow> nat \<Rightarrow> u64 \<Rightarrow> u64 \<Rightarrow> u64
    \<Rightarrow> 'c ngstate \<Rightarrow> 'c ngstate option" where
  "noncegen h global_fast B numeric_id local_startnonce local_nonces s =
     noncegen_loop h global_fast B local_startnonce local_nonces 0
       (prepare_templates B (write_seed numeric_id) write_term (replicate 32 0) s)"

definition noncegen_avx2 ::
  "('c \<Rightarrow> u32 list \<Rightarrow> u32 list \<Rightarrow> 'c \<times> (nat \<Rightarrow> u32)) \<Rightarrow> 'c \<Rightarrow> u64 \<Rightarrow> u64 \<Rightarrow> u64
    \<Rightarrow> 'c ngstate \<Rightarrow> 'c ngstate option" where
  "noncegen_avx2 h global_256_fast = noncegen h global_256_fast 8"

definition noncegen_avx512f ::
  "('c \<Rightarrow> u32 list \<Rightarrow> u32 list \<Rightarrow> 'c \<times> (nat \<Rightarrow> u32)) \<Rightarrow> 'c \<Rightarrow> u64 \<Rightarrow> u64 \<Rightarrow> u64
    \<Rightarrow> 'c ngstate \<Rightarrow> 'c ngstate option" where
  "noncegen_avx512f h global_512_fast = noncegen h global_512_fast 16"

section \<open>Deadline search\<close>

text \<open>Lane b of an array of interleaved words: word w of the lane is at index
  \<open>w * B + b\<close>.\<close>

definition lane :: "nat \<Rightarrow> nat \<Rightarrow> u32 list \<Rightarrow> u32 list" where
  "lane B b ws = map (\<lambda>w. ws ! (w * B + b)) [0..<length ws div B]"

text \<open>The loop that broadcasts gensig and term into gensig_simd and term_simd, arrays
  of 8 * B words; \<open>o = i / 2\<close> in find_best_deadline_avx2 and \<open>o = i / 4\<close> in
  find_best_deadline_avx512f. gensig is read from memory.\<close>

definition broadcast_lane ::
  "memory \<Rightarrow> u64 \<Rightarrow> u8 list \<Rightarrow> nat \<Rightarrow> nat \<Rightarrow> nat
    \<Rightarrow> (nat \<Rightarrow> u32) \<times> (nat \<Rightarrow> u32) \<Rightarrow> (nat \<Rightarrow> u32) \<times> (nat \<Rightarrow> u32)" where
  "broadcast_lane m gensig trm i ofs k simd =
     ((fst simd)(i + k := load32 m (gensig + of_nat ofs)),
      (snd simd)(i + k := ld32 trm ofs))"

definition prepare_inputs ::
  "memory \<Rightarrow> u64 \<Rightarrow> u8 list \<Rightarrow> nat
    \<Rightarrow> (nat \<Rightarrow> u32) \<times> (nat \<Rightarrow> u32) \<Rightarrow> (nat \<Rightarrow> u32) \<times> (nat \<Rightarrow> u32)" where
  "prepare_inputs m gensig trm B simd =
     fold (\<lambda>i. fold (broadcast_lane m gensig trm i (i div (B div 4))) [0..<B])
       (range_step 0 (16 * B div 2) B) simd"

text \<open>Modelled from the spec: mshabal_deadline_fast_avx2 and
  mshabal_deadline_fast_avx512f, which are not among the sources (spec section 4.5, steps
  2 and 3): one Shabal-256 per lane over gensig, the 32 bytes at u1, the 32 bytes at u2
  and the terminator, and the first 8 bytes of its output as the deadline of the lane.
  The hash of one lane is the parameter \<open>sh\<close>, a function of the context and of the
  32 words of the message.\<close>

definition mshabal_deadline_fast ::
  "('c \<Rightarrow> u32 list \<Rightarrow> u64) \<Rightarrow> nat \<Rightarrow> 'c \<Rightarrow> u32 list \<Rightarrow> u32 list \<Rightarrow> u32 list \<Rightarrow> u32 list
    \<Rightarrow> u64 list" where
  "mshabal_deadline_fast sh B x gensig_simd u1 u2 term_simd =
     map (\<lambda>b. sh x (lane B b gensig_simd @ lane B b u1 @ lane B b u2 @ lane B b term_simd))
       [0..<B]"

text \<open>The B deadlines of the batch at counter i: the two pointers into the cache, and the
  call of mshabal_deadline_fast on gensig_simd, the 32 * B bytes at u1, the 32 * B bytes at
  u2 and term_simd.\<close>

definition batch_deadlines ::
  "('c \<Rightarrow> u32 list \<Rightarrow> u64) \<Rightarrow> nat \<Rightarrow> 'c \<Rightarrow> u32 list \<Rightarrow> u32 list \<Rightarrow> u64 \<Rightarrow> u64 \<Rightarrow> u64
    \<Rightarrow> u64 \<Rightarrow> memory \<Rightarrow> u64 list" where
  "batch_deadlines sh B x gensig_simd term_simd data scoop mirrorscoop i m =
     (let u1 = data + i * of_nat NONCE_SIZE + scoop * of_nat SCOOP_SIZE * of_nat B;
          u2 = data + i * of_nat NONCE_SIZE + mirrorscoop * of_nat SCOOP_SIZE * of_nat B
                 + of_nat HASH_SIZE * of_nat B
      in mshabal_deadline_fast sh B x gensig_simd
           (load_words m u1 (8 * B)) (load_words m u2 (8 * B)) term_simd)"

text \<open>The body of the loop over the batches: the deadlines d0, d1, \<dots> of the batch, then
  SET_BEST_DEADLINE for the lanes in order.\<close>

definition deadline_batch ::
  "('c \<Rightarrow> u32 list \<Rightarrow> u64) \<Rightarrow> nat \<Rightarrow> 'c \<Rightarrow> u32 list \<Rightarrow> u32 list \<Rightarrow> u64 \<Rightarrow> u64 \<Rightarrow> u64
    \<Rightarrow> u64 \<Rightarrow> u64 \<Rightarrow> u64 \<Rightarrow> memory \<Rightarrow> memory" where
  "deadline_batch sh B x gensig_simd term_simd data scoop mirrorscoop
       best_deadline best_offset i m =
     (let d = batch_deadlines sh B x gensig_simd term_simd data scoop mirrorscoop i m
      in fold (\<lambda>k. SET_BEST_DEADLINE best_deadline best_offset (d ! k) (i + of_nat k))
           [0..<B] m)"

text \<open>\<open>for (uint64_t i = 0; i < nonce_count; i += B)\<close> around a body, the counter a 64-bit
  word; a run that never leaves the loop is None.\<close>

partial_function (option) deadline_loop ::
  "(u64 \<Rightarrow> memory \<Rightarrow> memory) \<Rightarrow> nat \<Rightarrow> u64 \<Rightarrow> u64 \<Rightarrow> memory \<Rightarrow> memory option" where
  "deadline_loop body B nonce_count i m =
     (if i < nonce_count
      then deadline_loop body B nonce_count (i + of_nat B) (body i m)
      else Some m)"

text \<open>find_best_deadline_avx2 and find_best_deadline_avx512f. \<open>simd\<close> is what the
  uninitialised arrays gensig_simd and term_simd contain at entry; \<open>x\<close> is the local
  copy of the global fast context.\<close>

definition find_best_deadline ::
  "('c \<Rightarrow> u32 list \<Rightarrow> u64) \<Rightarrow> 'c \<Rightarrow> nat \<Rightarrow> (nat \<Rightarrow> u32) \<times> (nat \<Rightarrow> u32)
    \<Rightarrow> u64 \<Rightarrow> u64 \<Rightarrow> u64 \<Rightarrow> u64 \<Rightarrow> u64 \<Rightarrow> u64 \<Rightarrow> memory \<Rightarrow> memory option" where
  "find_best_deadline sh global_fast B simd data scoop nonce_count gensig
       best_deadline best_offset m =
     (let x = global_fast;
          prepared = prepare_inputs m gensig write_term B simd;
          gensig_simd = map (fst prepared) [0..<8 * B];
          term_simd = map (snd prepared) [0..<8 * B];
          mirrorscoop = 4095 - scoop
      in deadline_loop
           (deadline_batch sh B x gensig_simd term_simd data scoop mirrorscoop
              best_deadline best_offset)
           B nonce_count 0 m)"

definition find_best_deadline_avx2 ::
  "('c \<Rightarrow> u32 list \<Rightarrow> u64) \<Rightarrow> 'c \<Rightarrow> (nat \<Rightarrow> u32) \<times> (nat \<Rightarrow> u32)
    \<Rightarrow> u64 \<Rightarrow> u64 \<Rightarrow> u64 \<Rightarrow> u64 \<Rightarrow> u64 \<Rightarrow> u64 \<Rightarrow> memory \<Rightarrow> memory option" where
  "find_best_deadline_avx2 sh global_256_fast = find_best_deadline sh global_256_fast 8"

definition find_best_deadline_avx512f ::
  "('c \<Rightarrow> u32 list \<Rightarrow> u64) \<Rightarrow> 'c \<Rightarrow> (nat \<Rightarrow> u32) \<times> (nat \<Rightarrow> u32)
    \<Rightarrow> u64 \<Rightarrow> u64 \<Rightarrow> u64 \<Rightarrow> u64 \<Rightarrow> u64 \<Rightarrow> u64 \<Rightarrow> memory \<Rightarrow> memory option" where
  "find_best_deadline_avx512f sh global_512_fast = find_best_deadline sh global_512_fast 16"

text \<open>The bytes of the n words from word w0 on of lane b of an array of interleaved
  words.\<close>

definition lane_bytes :: "nat \<Rightarrow> nat \<Rightarrow> (nat \<Rightarrow> u32) \<Rightarrow> nat \<Rightarrow> nat \<Rightarrow> u8 list" where
  "lane_bytes B b t w0 n = concat (map (\<lambda>w. le_bytes32 (t ((w0 + w) * B + b))) [0..<n])"


text \<open>The deadline of nonce i of the cache, as find_best_deadline computes it on the
  memory m: lane \<open>i mod B\<close> of the batch at counter \<open>i - i mod B\<close>.\<close>

definition nonce_deadline ::
  "('c \<Rightarrow> u32 list \<Rightarrow> u64) \<Rightarrow> 'c \<Rightarrow> nat \<Rightarrow> (nat \<Rightarrow> u32) \<times> (nat \<Rightarrow> u32)
    \<Rightarrow> u64 \<Rightarrow> u64 \<Rightarrow> u64 \<Rightarrow> memory \<Rightarrow> nat \<Rightarrow> u64" where
  "nonce_deadline sh global_fast B simd data scoop gensig m i =
     batch_deadlines sh B global_fast
       (map (fst (prepare_inputs m gensig write_term B simd)) [0..<8 * B])
       (map (snd (prepare_inputs m gensig write_term B simd)) [0..<8 * B])
       data scoop (4095 - scoop) (of_nat (i - i mod B)) m ! (i mod B)"

text \<open>SET_BEST_DEADLINE on the two values behind the pointers, for the deadline d of
  nonce i.\<close>

definition best_step :: "(nat \<Rightarrow> u64) \<Rightarrow> nat \<Rightarrow> u64 \<times> u64 \<Rightarrow> u64 \<times> u64" where
  "best_step d i best = (if fst best = 0 \<or> d i < fst best then (d i, of_nat i) else best)"

text \<open>The message \<open>gensig || u1 || u2 || term\<close> of lane b in the batch at counter i,
  32 words: the 8 words of gensig (read in the memory at entry), the 8 words of lane b of
  the slab at \<open>u1 = data + i * NONCE_SIZE + scoop * SCOOP_SIZE * B\<close>, the 8 words of lane b
  of the slab at \<open>u2 = data + i * NONCE_SIZE + (4095 - scoop) * SCOOP_SIZE * B +
  HASH_SIZE * B\<close> (both read in the memory m of the batch; word w of lane b of a slab is
  at byte offset \<open>4 * (w * B + b)\<close>) and the 8 words of the terminator, 0x80 and zeros.\<close>

definition lane_message ::
  "nat \<Rightarrow> memory \<Rightarrow> u64 \<Rightarrow> memory \<Rightarrow> u64 \<Rightarrow> u64 \<Rightarrow> u64 \<Rightarrow> nat \<Rightarrow> u32 list" where
  "lane_message B m_entry gensig m data scoop i b =
     load_words m_entry gensig 8 @
     map (\<lambda>w. load32 m (data + i * of_nat NONCE_SIZE + scoop * of_nat SCOOP_SIZE * of_nat B
                    + of_nat (4 * (w * B + b)))) [0..<8] @
     map (\<lambda>w. load32 m (data + i * of_nat NONCE_SIZE
                    + (4095 - scoop) * of_nat SCOOP_SIZE * of_nat B
                    + of_nat HASH_SIZE * of_nat B
                    + of_nat (4 * (w * B + b)))) [0..<8] @
     [0x80, 0, 0, 0, 0, 0, 0, 0]"


section \<open>Concrete inputs\<close>

text \<open>The inputs of the examples below: a state with zeroed memory and locals; a
  compression that leaves the context alone and returns zero words; a compression that
  counts its calls in the context, and a zeroed state for it; a lane hash that returns
  one more than the first word of the 32 bytes at u1; a memory that is zero below address
  0x100 and holds the low byte of its address at every other address.\<close>

definition blank :: "unit ngstate" where
  "blank = \<lparr>mem = (\<lambda>a. 0), cache = 0, t1 = (\<lambda>j. 0), t2 = (\<lambda>j. 0), t3 = (\<lambda>j. 0),
             local_fast = (), final = [], hash_log = []\<rparr>"

definition h0 :: "unit \<Rightarrow> u32 list \<Rightarrow> u32 list \<Rightarrow> unit \<times> (nat \<Rightarrow> u32)" where
  "h0 c msg trm = ((), (\<lambda>j. 0))"



definition sh0 :: "unit \<Rightarrow> u32 list \<Rightarrow> u64" where
  "sh0 x msg = ucast (msg ! 8) + 1"

definition m0 :: memory where
  "m0 = (\<lambda>a. if a < 0x100 then 0 else ucast a)"

section \<open>Properties\<close>

subsection \<open>The batch loop\<close>

lemma len_word64: "LENGTH(64) = 64"
  by simp

lemma fold_keeps:
  assumes "\<And>x s. g (f x s) = g s"
  shows "g (fold f xs s) = g s"
  by (induction xs arbitrary: s) (simp_all add: assms)

lemma upt_0_Suc: "[0..<Suc m] = 0 # map Suc [0..<m]"
  by (metis map_Suc_upt upt_conv_Cons zero_less_Suc)

text \<open>Above \<open>2 ^ 64 - B\<close> the counter, a multiple of B, stays below local_nonces for
  ever: the loop has no result.\<close>

lemma noncegen_loop_never_aux:
  assumes "noncegen_loop h gl B st cnt n s = Some y"
  shows "\<not> (B dvd 2 ^ 64 \<and> 0 < B \<and> 2 ^ 64 < unat cnt + B \<and> B dvd unat n)"
  using assms
proof (induction h gl B st cnt n s y rule: noncegen_loop.raw_induct[rotated 1, consumes 1])
  case (1 f h gl B st cnt n s y)
  show ?case
  proof
    assume a: "B dvd 2 ^ 64 \<and> 0 < B \<and> 2 ^ 64 < unat cnt + B \<and> B dvd unat n"
    have lt: "unat n < 2 ^ 64" using unsigned_less[of n] by simp
    from a obtain q where q: "unat n = B * q" by (auto simp: dvd_def)
    from a obtain r where r: "(2::nat) ^ 64 = B * r" by (auto simp: dvd_def)
    from lt q r a have "q < r" by (metis nat_mult_less_cancel1)
    then have "B * (q + 1) \<le> B * r" by (intro mult_le_mono2) simp
    then have "unat n + B \<le> 2 ^ 64" using q r by simp
    with a have c: "n < cnt" by (simp add: word_less_nat_alt)
    have "unat (n + word_of_nat B) = (unat n + B) mod 2 ^ 64"
      by (simp add: unat_word_ariths unat_of_nat mod_simps)
    moreover have "B dvd (unat n + B) mod 2 ^ 64"
      using a by (simp add: dvd_mod)
    ultimately have d: "B dvd unat (n + word_of_nat B)" by simp
    from 1(2) c
    have "f h gl B st cnt (n + word_of_nat B) (noncegen_batch h gl B st n s) = Some y"
      by simp
    from 1(1)[OF this] a d show False by simp
  qed
qed

lemma noncegen_loop_never:
  assumes "B dvd 2 ^ 64" "0 < B" "2 ^ 64 < unat cnt + B"
  shows "noncegen_loop h gl B st cnt 0 s = None"
proof (cases "noncegen_loop h gl B st cnt 0 s")
  case None
  then show ?thesis .
next
  case (Some y)
  from noncegen_loop_never_aux[OF Some] assms show ?thesis by simp
qed

text \<open>Up to \<open>2 ^ 64 - B\<close> the loop runs the batches \<open>n = 0, B, 2 * B, \<dots>\<close> below
  local_nonces, one for every started group of B nonces.\<close>

lemma noncegen_loop_from:
  assumes B: "0 < B" and bound: "unat cnt + B \<le> 2 ^ 64"
  shows "j \<le> (unat cnt + B - 1) div B \<Longrightarrow>
    noncegen_loop h gl B st cnt (of_nat (B * j)) s =
      Some (fold (\<lambda>j. noncegen_batch h gl B st (of_nat (B * j)))
              [j..<(unat cnt + B - 1) div B] s)"
proof (induction "(unat cnt + B - 1) div B - j" arbitrary: j s)
  case 0
  then have j: "j = (unat cnt + B - 1) div B" by simp
  have "B * j \<le> unat cnt + B - 1" unfolding j by simp
  with bound B have lt: "B * j < 2 ^ 64" by linarith
  have "unat cnt \<le> B * j"
  proof -
    have "unat cnt + B - 1 < B * j + B" unfolding j using B
      by (metis dividend_less_times_div add.commute)
    then show ?thesis using B by linarith
  qed
  moreover have "unat (word_of_nat (B * j) :: u64) = B * j"
    using lt by (simp only: unat_of_nat len_word64 mod_less)
  ultimately have "\<not> (word_of_nat (B * j) :: u64) < cnt"
    by (simp only: word_less_nat_alt not_less)
  then show ?case
    by (subst noncegen_loop.simps) (simp add: j)
next
  case (Suc d)
  let ?K = "(unat cnt + B - 1) div B"
  from Suc have jK: "j < ?K" by simp
  then have "B * (j + 1) \<le> B * ?K" using B by (metis Suc_eq_plus1 Suc_leI mult_le_mono2)
  also have "\<dots> \<le> unat cnt + B - 1" by simp
  finally have le: "B * j + B \<le> unat cnt + B - 1" by simp
  then have "B * j < unat cnt" using B by linarith
  moreover have "B * j < 2 ^ 64" using le bound B by linarith
  then have "unat (word_of_nat (B * j) :: u64) = B * j"
    by (simp only: unat_of_nat len_word64 mod_less)
  ultimately have c: "(word_of_nat (B * j) :: u64) < cnt"
    by (simp only: word_less_nat_alt)
  have n: "(word_of_nat (B * j) :: u64) + word_of_nat B = word_of_nat (B * Suc j)"
    by simp
  have IH: "noncegen_loop h gl B st cnt (word_of_nat (B * Suc j)) s' =
      Some (fold (\<lambda>j. noncegen_batch h gl B st (word_of_nat (B * j))) [Suc j..<?K] s')" for s'
    using Suc(1)[of "Suc j" s'] Suc(2) jK by simp
  show ?case
    apply (subst noncegen_loop.simps)
    apply (simp only: c if_True n IH)
    apply (subst upt_conv_Cons[OF jK])
    apply (simp only: fold_simps comp_def)
    done
qed

subsection \<open>The calls of mshabal_hash_fast\<close>

lemma hash_log_hash:
  "hash_log (mshabal_hash_fast h B c s) = hash_log s @ [(local_fast s, c)]"
  by (simp add: mshabal_hash_fast_def Let_def split: dest.splits option.splits)


lemma cache_hash: "cache (mshabal_hash_fast h B c s) = cache s"
  by (simp add: mshabal_hash_fast_def Let_def split: dest.splits option.splits)

lemma fold_hash_calls:
  "map snd (hash_log (fold (\<lambda>k. mshabal_hash_fast h B (c k)) ks s)) =
     map snd (hash_log s) @ map c ks"
  by (induction ks arbitrary: s) (simp_all add: hash_log_hash)


text \<open>The two loops over the hashes, as the list of their calls.\<close>

lemma early_phase_unroll:
  "early_phase h B (NONCE_SIZE - HASH_CAP + HASH_SIZE * m) s =
     fold (\<lambda>k. mshabal_hash_fast h B
        \<lparr>message = Some ((NONCE_SIZE - HASH_CAP + HASH_SIZE * (m - k)) * B),
         tmpl = (if (NONCE_SIZE - HASH_CAP + HASH_SIZE * (m - k)) mod 64 = 0 then T1 else T2),
         dst = Cache ((NONCE_SIZE - HASH_CAP + HASH_SIZE * (m - k) - HASH_SIZE) * B),
         len = drop_bit 6 (NONCE_SIZE + 16 - (NONCE_SIZE - HASH_CAP + HASH_SIZE * (m - k)))\<rparr>)
       [0..<m] s"
proof (induction m arbitrary: s)
  case 0
  show ?case by (subst early_phase.simps) simp
next
  case (Suc m)
  have a: "NONCE_SIZE - HASH_CAP + HASH_SIZE * Suc m - HASH_SIZE =
      NONCE_SIZE - HASH_CAP + HASH_SIZE * m"
    by simp
  show ?case
    apply (subst early_phase.simps)
    apply (simp only: a upt_0_Suc Suc.IH)
    apply (simp add: fold_map comp_def HASH_SIZE_def del: upt_Suc)
    done
qed

lemma sat_phase_unroll:
  "sat_phase h B (HASH_SIZE * m) s =
     fold (\<lambda>k. mshabal_hash_fast h B
        \<lparr>message = Some (HASH_SIZE * (m - k) * B), tmpl = T3,
         dst = Cache ((HASH_SIZE * (m - k) - HASH_SIZE) * B),
         len = drop_bit 6 HASH_CAP\<rparr>)
       [0..<m] s"
proof (induction m arbitrary: s)
  case 0
  show ?case by (subst sat_phase.simps) simp
next
  case (Suc m)
  have a: "HASH_SIZE * Suc m - HASH_SIZE = HASH_SIZE * m"
    by simp
  show ?case
    apply (subst sat_phase.simps)
    apply (simp only: a upt_0_Suc Suc.IH)
    apply (simp add: fold_map comp_def HASH_SIZE_def del: upt_Suc)
    done
qed

lemma early_start: "NONCE_SIZE - HASH_SIZE = NONCE_SIZE - HASH_CAP + HASH_SIZE * 127"
  by (simp add: NONCE_SIZE_def HASH_SIZE_def HASH_CAP_def SCOOP_SIZE_def)

lemma sat_start: "NONCE_SIZE - HASH_CAP = HASH_SIZE * 8064"
  by (simp add: NONCE_SIZE_def HASH_SIZE_def HASH_CAP_def SCOOP_SIZE_def)

lemma early_index:
  "k < 127 \<Longrightarrow> NONCE_SIZE - HASH_CAP + HASH_SIZE * (127 - k) = HASH_SIZE * (8191 - k)"
  by (simp add: NONCE_SIZE_def HASH_SIZE_def HASH_CAP_def SCOOP_SIZE_def)

lemma early_phase_log:
  "map snd (hash_log (early_phase h B (NONCE_SIZE - HASH_SIZE) s)) =
     map snd (hash_log s) @
     map (\<lambda>k. let i = HASH_SIZE * (8191 - k) in
            \<lparr>message = Some (i * B), tmpl = (if i mod 64 = 0 then T1 else T2),
             dst = Cache ((i - HASH_SIZE) * B), len = drop_bit 6 (NONCE_SIZE + 16 - i)\<rparr>)
       [0..<127]"
  apply (simp only: early_start early_phase_unroll fold_hash_calls)
  apply (rule arg_cong[where f="\<lambda>x. map snd (hash_log s) @ x"])
  apply (rule map_cong[OF refl])
  apply (simp add: early_index Let_def)
  done

lemma sat_phase_log:
  "map snd (hash_log (sat_phase h B (NONCE_SIZE - HASH_CAP) s)) =
     map snd (hash_log s) @
     map (\<lambda>k. let i = HASH_SIZE * (8064 - k) in
            \<lparr>message = Some (i * B), tmpl = T3,
             dst = Cache ((i - HASH_SIZE) * B), len = drop_bit 6 HASH_CAP\<rparr>)
       [0..<8064]"
  by (simp only: sat_start sat_phase_unroll fold_hash_calls Let_def)

lemma hash_log_patch: "hash_log (patch_nonces B st n s) = hash_log s"
  unfolding patch_nonces_def
  by (intro fold_keeps) (simp add: patch_lane_def Let_def)

lemma local_fast_patch: "local_fast (patch_nonces B st n s) = local_fast s"
  unfolding patch_nonces_def
  by (intro fold_keeps) (simp add: patch_lane_def Let_def)

lemma cache_patch: "cache (patch_nonces B st n s) = cache s"
  unfolding patch_nonces_def
  by (intro fold_keeps) (simp add: patch_lane_def Let_def)

lemma hash_log_round1:
  "hash_log (round1 h gl B st n s) =
     hash_log s @ [(gl, \<lparr>message = None, tmpl = T1,
                          dst = Cache (B * (NONCE_SIZE - HASH_SIZE)), len = 0\<rparr>)]"
  by (simp add: round1_def Let_def hash_log_hash hash_log_patch)


lemma cache_round1: "cache (round1 h gl B st n s) = cache s"
  by (simp add: round1_def Let_def cache_hash cache_patch)

lemma hash_log_xor_pass: "hash_log (xor_pass B s) = hash_log s"
  unfolding xor_pass_def
  by (intro fold_keeps) (simp add: xor_vector_def)

lemma cache_xor_pass: "cache (xor_pass B s) = cache s"
  unfolding xor_pass_def
  by (intro fold_keeps) (simp add: xor_vector_def)

lemma hash_log_batch:
  "hash_log (noncegen_batch h gl B st n s) = hash_log (hash_rounds h gl B st n s)"
  by (simp add: noncegen_batch_def Let_def hash_log_xor_pass)

lemma early_phase_keeps:
  assumes "\<And>c s. g (mshabal_hash_fast h B c s) = g s"
  shows "g (early_phase h B (NONCE_SIZE - HASH_SIZE) s) = g s"
  unfolding early_start early_phase_unroll
  by (rule fold_keeps) (rule assms)

lemma sat_phase_keeps:
  assumes "\<And>c s. g (mshabal_hash_fast h B c s) = g s"
  shows "g (sat_phase h B (NONCE_SIZE - HASH_CAP) s) = g s"
  unfolding sat_start sat_phase_unroll
  by (rule fold_keeps) (rule assms)

lemma cache_hash_rounds: "cache (hash_rounds h gl B st n s) = cache s"
  unfolding hash_rounds_def Let_def
  by (simp only: cache_hash sat_phase_keeps[where g = cache, OF cache_hash]
      early_phase_keeps[where g = cache, OF cache_hash] cache_round1)

lemma cache_batch:
  "cache (noncegen_batch h gl B st n s) = cache s + of_nat (B * NONCE_SIZE)"
  by (simp add: noncegen_batch_def Let_def cache_xor_pass cache_hash_rounds)

lemma cache_fold_batch:
  "cache (fold (\<lambda>j. noncegen_batch h gl B st (f j)) js s) =
     cache s + of_nat (length js * (B * NONCE_SIZE))"
  by (induction js arbitrary: s) (simp_all add: cache_batch algebra_simps)

lemma calls_hash_rounds:
  "map snd (hash_log (hash_rounds h gl B st n s)) =
     map snd (hash_log s) @
     [\<lparr>message = None, tmpl = T1, dst = Cache (B * (NONCE_SIZE - HASH_SIZE)), len = 0\<rparr>] @
     map (\<lambda>k. let i = HASH_SIZE * (8191 - k) in
            \<lparr>message = Some (i * B), tmpl = (if i mod 64 = 0 then T1 else T2),
             dst = Cache ((i - HASH_SIZE) * B), len = drop_bit 6 (NONCE_SIZE + 16 - i)\<rparr>)
       [0..<127] @
     map (\<lambda>k. let i = HASH_SIZE * (8064 - k) in
            \<lparr>message = Some (i * B), tmpl = T3,
             dst = Cache ((i - HASH_SIZE) * B), len = drop_bit 6 HASH_CAP\<rparr>)
       [0..<8064] @
     [\<lparr>message = Some 0, tmpl = T1, dst = Final, len = drop_bit 6 (NONCE_SIZE + 16)\<rparr>]"
  by (simp only: hash_rounds_def Let_def hash_log_hash map_append sat_phase_log
      early_phase_log hash_log_round1 list.map snd_conv append_assoc)

lemma length_hash_rounds:
  "length (hash_log (hash_rounds h gl B st n s)) = length (hash_log s) + 8193"
proof -
  have "length (map snd (hash_log (hash_rounds h gl B st n s))) =
      length (map snd (hash_log s)) + 8193"
    by (simp only: calls_hash_rounds) (simp del: upt_rec_numeral)
  then show ?thesis by simp
qed

lemma map_upt_shift: "map f [a..<a + n] = map (\<lambda>k. f (a + k)) [0..<n]"
  by (induction n) simp_all

lemma upt_8192: "[0..<8192] = [0..<1] @ [1..<1 + 127] @ [128..<128 + 8064]"
proof -
  have "[0..<128 + 8064] = [0..<128] @ [128..<128 + 8064]"
    by (rule upt_add_eq_append) simp
  moreover have "[0..<1 + 127] = [0..<1] @ [1..<1 + 127]"
    by (rule upt_add_eq_append) simp
  moreover have "(128::nat) + 8064 = 8192" "(1::nat) + 127 = 128" by simp_all
  ultimately show ?thesis by (simp only: append_assoc)
qed

lemma dsts_hash_rounds:
  "map (dst \<circ> snd) (drop (length (hash_log s)) (hash_log (hash_rounds h gl B st n s))) =
     map (\<lambda>k. Cache (HASH_SIZE * (8191 - k) * B)) [0..<8192] @ [Final]"
proof -
  have "map dst (map snd (hash_log (hash_rounds h gl B st n s))) =
      map dst (map snd (hash_log s)) @
      map (\<lambda>k. Cache (HASH_SIZE * (8191 - k) * B)) [0..<8192] @ [Final]"
    apply (simp only: calls_hash_rounds upt_8192 map_append map_upt_shift)
    apply (simp add: Let_def NONCE_SIZE_def HASH_SIZE_def HASH_CAP_def SCOOP_SIZE_def
        diff_mult_distrib2 mult.commute del: upt_rec_numeral)
    done
  then have "map (dst \<circ> snd) (hash_log (hash_rounds h gl B st n s)) =
      map (dst \<circ> snd) (hash_log s) @
      map (\<lambda>k. Cache (HASH_SIZE * (8191 - k) * B)) [0..<8192] @ [Final]"
    by (simp del: upt_rec_numeral)
  then show ?thesis
    by (simp add: drop_map[symmetric] del: map_map upt_rec_numeral)
qed

subsection \<open>Bytes and words\<close>




lemma word32_of_le_bytes32:
  "word32_of (ucast w) (ucast (drop_bit 8 w)) (ucast (drop_bit 16 w)) (ucast (drop_bit 24 w)) = w"
  unfolding word32_of_def
proof (rule bit_word_eqI)
  fix n assume n: "n < LENGTH(32)"
  define q where "q = n div 8"
  define r where "r = n mod 8"
  have nr: "n = 8 * q + r" "r < 8" "q < 4" using n by (simp_all add: q_def r_def)
  then consider "n = r" | "n = 8 + r" | "n = 16 + r" | "n = 24 + r"
    by (cases "q = 0"; cases "q = 1"; cases "q = 2"; cases "q = 3") simp_all
  then show "bit (ucast (ucast w :: u8) OR push_bit 8 (ucast (ucast (drop_bit 8 w) :: u8)) OR
         push_bit 16 (ucast (ucast (drop_bit 16 w) :: u8)) OR push_bit 24 (ucast (ucast (drop_bit 24 w) :: u8)) :: u32) n = bit w n"
    using nr(2) by cases (simp_all add: bit_simps)
qed

lemma word64_of_8:
  "word64_of [b0, b1, b2, b3, b4, b5, b6, b7] =
     ucast b0 OR push_bit 8 (ucast b1) OR push_bit 16 (ucast b2) OR push_bit 24 (ucast b3) OR
     push_bit 32 (ucast b4) OR push_bit 40 (ucast b5) OR push_bit 48 (ucast b6) OR
     push_bit 56 (ucast b7)"
  unfolding word64_of_def by simp

lemma le_bytes64_eq:
  "le_bytes64 w = [ucast w, ucast (drop_bit 8 w), ucast (drop_bit 16 w), ucast (drop_bit 24 w),
     ucast (drop_bit 32 w), ucast (drop_bit 40 w), ucast (drop_bit 48 w), ucast (drop_bit 56 w)]"
  unfolding le_bytes64_def by (simp add: upt_conv_Cons)


lemma word64_of_le_bytes64: "word64_of (le_bytes64 w) = w"
  unfolding le_bytes64_eq word64_of_8
proof (rule bit_word_eqI)
  fix n assume n: "n < LENGTH(64)"
  define q where "q = n div 8"
  define r where "r = n mod 8"
  have nr: "n = 8 * q + r" "r < 8" "q < 8" using n by (simp_all add: q_def r_def)
  then consider "n = r" | "n = 8 + r" | "n = 16 + r" | "n = 24 + r"
    | "n = 32 + r" | "n = 40 + r" | "n = 48 + r" | "n = 56 + r"
    by (cases "q = 0"; cases "q = 1"; cases "q = 2"; cases "q = 3"; cases "q = 4";
        cases "q = 5"; cases "q = 6"; cases "q = 7") simp_all
  then show "bit (ucast (ucast w :: u8) OR push_bit 8 (ucast (ucast (drop_bit 8 w) :: u8)) OR
     push_bit 16 (ucast (ucast (drop_bit 16 w) :: u8)) OR push_bit 24 (ucast (ucast (drop_bit 24 w) :: u8)) OR
     push_bit 32 (ucast (ucast (drop_bit 32 w) :: u8)) OR push_bit 40 (ucast (ucast (drop_bit 40 w) :: u8)) OR
     push_bit 48 (ucast (ucast (drop_bit 48 w) :: u8)) OR push_bit 56 (ucast (ucast (drop_bit 56 w) :: u8)) :: u64) n = bit w n"
    using nr(2) by cases (simp_all add: bit_simps)
qed


subsection \<open>Loops that fill an array\<close>


lemma fold_proj:
  assumes "\<And>x s. p (F x s) = G x (p s)"
  shows "p (fold F xs s) = fold G xs (p s)"
  by (induction xs arbitrary: s) (simp_all add: assms)

lemma fold_upd1:
  "fold (\<lambda>k a. a(j + k := v k)) [0..<m] a x =
     (if j \<le> x \<and> x < j + m then v (x - j) else a x)"
  by (induction m) auto


lemma div_mod_block:
  fixes x :: nat
  assumes "Q * B \<le> x" "x < Q * B + B"
  shows "x div B = Q" "x mod B = x - Q * B"
proof -
  from assms have B: "0 < B" by (cases B) auto
  from assms obtain r where r: "x = r + Q * B" "r < B"
    by (metis add.commute le_Suc_ex nat_add_left_cancel_less)
  then show "x div B = Q" using B by simp
  from r show "x mod B = x - Q * B" by simp
qed

lemma fold2_upd1:
  "fold (\<lambda>j. fold (\<lambda>k a. a(j + k + D := v j k)) [0..<B]) (map (\<lambda>q. lo + q * B) [0..<Q]) a x =
     (if lo + D \<le> x \<and> x < lo + D + Q * B
      then v (lo + (x - lo - D) div B * B) ((x - lo - D) mod B) else a x)"
proof (induction Q)
  case 0
  show ?case by auto
next
  case (Suc Q)
  let ?G = "\<lambda>j. fold (\<lambda>k a. a(j + k + D := v j k)) [0..<B]"
  let ?f = "\<lambda>q. lo + q * B"
  have step: "fold ?G (map ?f [0..<Suc Q]) a = ?G (?f Q) (fold ?G (map ?f [0..<Q]) a)"
    by simp
  have inner: "?G (?f Q) a' x =
      (if lo + Q * B + D \<le> x \<and> x < lo + Q * B + D + B then v (lo + Q * B) (x - (lo + Q * B + D))
       else a' x)" for a'
    using fold_upd1[of "lo + Q * B + D" "v (lo + Q * B)" B a' x]
    by (simp add: add.assoc add.left_commute[of D] add.commute[of D])
  show ?case
  proof (cases "lo + Q * B + D \<le> x \<and> x < lo + Q * B + D + B")
    case True
    then have "Q * B \<le> x - lo - D" "x - lo - D < Q * B + B" by auto
    from div_mod_block[OF this] have "(x - lo - D) div B = Q" "(x - lo - D) mod B = x - lo - D - Q * B" .
    moreover have "x - lo - D - Q * B = x - (lo + Q * B + D)" by simp
    moreover have "lo + D \<le> x \<and> x < lo + D + Suc Q * B" using True by simp
    ultimately show ?thesis using True
      by (simp only: step inner if_True simp_thms)
  next
    case False
    then have "(lo + D \<le> x \<and> x < lo + D + Suc Q * B) = (lo + D \<le> x \<and> x < lo + D + Q * B)"
      by auto
    then show ?thesis using False
      by (simp only: step inner if_False Suc.IH simp_thms)
  qed
qed


subsection \<open>The termination strings\<close>

lemma range_step_prepare:
  "B = 8 \<or> B = 16 \<Longrightarrow> range_step 0 (16 * B div 2) B = map (\<lambda>q. 0 + q * B) [0..<8]"
  unfolding range_step_def by auto











lemma t3_patch: "t3 (patch_nonces B st n s) = t3 s"
  unfolding patch_nonces_def
  by (intro fold_keeps) (simp add: patch_lane_def Let_def)





lemma t2_hash: "t2 (mshabal_hash_fast h B c s) = t2 s"
  by (simp add: mshabal_hash_fast_def Let_def split: dest.splits option.splits)

lemma t3_hash: "t3 (mshabal_hash_fast h B c s) = t3 s"
  by (simp add: mshabal_hash_fast_def Let_def split: dest.splits option.splits)


lemma t2_xor_pass: "t2 (xor_pass B s) = t2 s"
  unfolding xor_pass_def by (intro fold_keeps) (simp add: xor_vector_def)

lemma t3_xor_pass: "t3 (xor_pass B s) = t3 s"
  unfolding xor_pass_def by (intro fold_keeps) (simp add: xor_vector_def)


lemma t3_round1: "t3 (round1 h gl B st n s) = t3 s"
  by (simp add: round1_def Let_def t3_hash t3_patch)



lemma t2_after_round1:
  "t2 (noncegen_batch h gl B st n s) = t2 (round1 h gl B st n s)"
  unfolding noncegen_batch_def hash_rounds_def Let_def
  by (simp add: t2_xor_pass t2_hash sat_phase_keeps[where g = t2, OF t2_hash]
      early_phase_keeps[where g = t2, OF t2_hash])

lemma t3_batch: "t3 (noncegen_batch h gl B st n s) = t3 s"
  unfolding noncegen_batch_def hash_rounds_def Let_def
  by (simp add: t3_xor_pass t3_hash sat_phase_keeps[where g = t3, OF t3_hash]
      early_phase_keeps[where g = t3, OF t3_hash] t3_round1)



lemma t3_fold_batches:
  "t3 (fold (\<lambda>j. noncegen_batch h gl B st (f j)) js s) = t3 s"
  by (rule fold_keeps[where g = t3]) (rule t3_batch)

lemma lane_index:
  fixes b :: nat
  assumes "b < B"
  shows "(w * B + b) div B = w" "(w * B + b) mod B = b"
  using assms by simp_all



lemma length_le_bytes64: "length (le_bytes64 w) = 8"
  by (simp add: le_bytes64_def)




lemma lane_less:
  fixes b :: nat
  assumes "b < B"
  shows "(w * B + b < c * B) = (w < c)"
proof
  assume "w * B + b < c * B"
  then have "w * B < c * B" by linarith
  then show "w < c" by simp
next
  assume "w < c"
  then have "Suc w \<le> c" by simp
  then have "Suc w * B \<le> c * B" by (rule mult_le_mono1)
  with assms show "w * B + b < c * B" by simp
qed










subsection \<open>Loads and stores\<close>

lemma unat_ptr_diff:
  "k < 2 ^ 64 \<Longrightarrow> unat ((p + of_nat k) - p :: u64) = k"
  by (simp add: unat_of_nat)

lemma length_concat_le_bytes32: "length (concat (map le_bytes32 ws)) = 4 * length ws"
  by (induction ws) (simp_all add: le_bytes32_def)

lemma length_le_bytes32: "length (le_bytes32 w) = 4"
  by (simp add: le_bytes32_def)

lemma concat_le_bytes32_nth:
  "j < length ws \<Longrightarrow> r < 4 \<Longrightarrow> concat (map le_bytes32 ws) ! (4 * j + r) = le_bytes32 (ws ! j) ! r"
proof (induction ws arbitrary: j)
  case Nil
  then show ?case by simp
next
  case (Cons w ws)
  show ?case
  proof (cases j)
    case 0
    with Cons.prems show ?thesis by (simp add: nth_append length_le_bytes32)
  next
    case (Suc j')
    with Cons.prems have "concat (map le_bytes32 ws) ! (4 * j' + r) = le_bytes32 (ws ! j') ! r"
      by (intro Cons.IH) simp_all
    moreover have "4 * j + r - 4 = 4 * j' + r" using Suc by simp
    ultimately show ?thesis using Suc
      by (simp add: nth_append length_le_bytes32)
  qed
qed

lemma store_bytes_at:
  assumes "k < length bs" "length bs \<le> 2 ^ 64"
  shows "store_bytes p bs m (p + of_nat k) = bs ! k"
proof -
  from assms have "k < 2 ^ 64" by simp
  from unat_ptr_diff[OF this] assms show ?thesis by (simp add: store_bytes_def)
qed

lemma word32_of_nth: "word32_of (le_bytes32 w ! 0) (le_bytes32 w ! 1) (le_bytes32 w ! 2) (le_bytes32 w ! 3) = w"
  by (simp add: le_bytes32_def word32_of_le_bytes32)

lemma load32_store_words:
  assumes j: "j < length ws" and len: "4 * length ws \<le> 2 ^ 64"
  shows "load32 (store_words p ws m) (p + of_nat (4 * j)) = ws ! j"
proof -
  let ?bs = "concat (map le_bytes32 ws)"
  have l: "length ?bs \<le> 2 ^ 64" using len by (simp add: length_concat_le_bytes32)
  have at: "store_bytes p ?bs m (p + of_nat (4 * j) + of_nat r) = le_bytes32 (ws ! j) ! r"
    if "r < 4" for r
  proof -
    have "4 * j + r < length ?bs" using j that by (simp add: length_concat_le_bytes32)
    from store_bytes_at[OF this l, of p m] show ?thesis
      using j that by (simp add: concat_le_bytes32_nth add.assoc)
  qed
  have "store_bytes p ?bs m (p + of_nat (4 * j)) = le_bytes32 (ws ! j) ! 0"
    "store_bytes p ?bs m (p + of_nat (4 * j) + 1) = le_bytes32 (ws ! j) ! 1"
    "store_bytes p ?bs m (p + of_nat (4 * j) + 2) = le_bytes32 (ws ! j) ! 2"
    "store_bytes p ?bs m (p + of_nat (4 * j) + 3) = le_bytes32 (ws ! j) ! 3"
    using at[of 0] at[of 1] at[of 2] at[of 3] by simp_all
  then show ?thesis
    by (simp only: load32_def store_words_def word32_of_nth)
qed

lemma load_words_store_words:
  assumes "4 * length ws \<le> 2 ^ 64"
  shows "load_words (store_words p ws m) p (length ws) = ws"
  by (rule nth_equalityI)
     (simp_all add: load_words_def load32_store_words[OF _ assms] del: of_nat_mult)







lemma term_nth:
  "write_term ! 0 = 0x80" "0 < k \<Longrightarrow> k < 32 \<Longrightarrow> write_term ! k = 0"
  by (simp_all add: write_term_def nth_Cons')

lemma zero_nth: "k < 32 \<Longrightarrow> replicate 32 (0 :: u8) ! k = 0"
  by simp




lemma mem_patch: "mem (patch_nonces B st n s) = mem s"
  unfolding patch_nonces_def
  by (intro fold_keeps) (simp add: patch_lane_def Let_def)

lemma tmpl_words_cong:
  "t1 s = t1 s' \<Longrightarrow> t2 s = t2 s' \<Longrightarrow> t3 s = t3 s' \<Longrightarrow> tmpl_words B s T = tmpl_words B s' T"
  by (simp add: tmpl_words_def split: tmpl.splits)

lemma mem_hash_cache:
  "mem (mshabal_hash_fast h B \<lparr>message = msg, tmpl = T, dst = Cache q, len = l\<rparr> s) =
     store_words (cache s + of_nat q)
       (map (snd (h (local_fast s)
          (case msg of None \<Rightarrow> [] | Some p \<Rightarrow> load_words (mem s) (cache s + of_nat p) (l * 16 * B))
          (tmpl_words B s T))) [0..<8 * B]) (mem s)"
  by (simp add: mshabal_hash_fast_def Let_def split: option.splits)

lemma mem_round1:
  "mem (round1 h gl B st n s) =
     store_words (cache s + of_nat (B * (NONCE_SIZE - HASH_SIZE)))
       (map (snd (h gl [] (tmpl_words B (patch_nonces B st n s) T1))) [0..<8 * B]) (mem s)"
proof -
  have "tmpl_words B (patch_nonces B st n s\<lparr>local_fast := gl\<rparr>) T1 =
      tmpl_words B (patch_nonces B st n s) T1"
    by (rule tmpl_words_cong) simp_all
  then show ?thesis
    by (simp add: round1_def Let_def mem_hash_cache mem_patch cache_patch)
qed

lemma t2_round1:
  assumes "B = 8 \<or> B = 16"
  shows "t2 (round1 h gl B st n s) j =
     (if j < 8 * B then snd (h gl [] (tmpl_words B (patch_nonces B st n s) T1)) j
      else t2 (patch_nonces B st n s) j)"
proof -
  let ?out = "map (snd (h gl [] (tmpl_words B (patch_nonces B st n s) T1))) [0..<8 * B]"
  have len: "length ?out = 8 * B" by simp
  have "4 * length ?out \<le> 2 ^ 64" using assms by auto
  from load_words_store_words[OF this, of "cache s + of_nat (B * (NONCE_SIZE - HASH_SIZE))" "mem s"]
  have ld: "load_words (mem (round1 h gl B st n s))
      (cache s + of_nat (B * (NONCE_SIZE - HASH_SIZE))) (8 * B) = ?out"
    by (simp only: mem_round1 len)
  have c: "B * HASH_SIZE div 4 = 8 * B" by (simp add: HASH_SIZE_def)
  have m: "mem (mshabal_hash_fast h B
         \<lparr>message = None, tmpl = T1, dst = Cache (B * (NONCE_SIZE - HASH_SIZE)), len = drop_bit 6 16\<rparr>
         (patch_nonces B st n s\<lparr>local_fast := gl\<rparr>)) = mem (round1 h gl B st n s)"
    by (simp add: round1_def Let_def)
  have "t2 (round1 h gl B st n s) j =
      (if j < 8 * B then load_words (mem (round1 h gl B st n s))
         (cache s + of_nat (B * (NONCE_SIZE - HASH_SIZE))) (8 * B) ! j
       else t2 (patch_nonces B st n s) j)"
    unfolding m[symmetric]
    by (simp add: round1_def Let_def c t2_hash cache_hash cache_patch)
  then show ?thesis
    unfolding ld by simp
qed

lemma t2_hash_rounds: "t2 (hash_rounds h gl B st n s) = t2 (round1 h gl B st n s)"
  unfolding hash_rounds_def Let_def
  by (simp add: t2_hash sat_phase_keeps[where g = t2, OF t2_hash]
      early_phase_keeps[where g = t2, OF t2_hash])

lemma lane_bytes_cong:
  assumes "\<And>w. w < k \<Longrightarrow> t ((w0 + w) * B + b) = t' ((w0 + w) * B + b)"
  shows "lane_bytes B b t w0 k = lane_bytes B b t' w0 k"
  unfolding lane_bytes_def
  by (rule arg_cong[where f = concat], rule map_cong[OF refl]) (simp add: assms)

subsection \<open>What find_best_deadline writes\<close>

lemma store_bytes_frame: "a \<notin> region p (length bs) \<Longrightarrow> store_bytes p bs m a = m a"
  by (simp add: store_bytes_def region_def)

lemma store64_frame: "a \<notin> region p 8 \<Longrightarrow> store64 p v m a = m a"
  by (simp add: store64_def store_bytes_frame length_le_bytes64)

lemma SET_BEST_DEADLINE_frame:
  "a \<notin> region best_deadline 8 \<union> region best_offset 8 \<Longrightarrow>
     SET_BEST_DEADLINE best_deadline best_offset d ofs m a = m a"
  by (simp add: SET_BEST_DEADLINE_def store64_frame)

lemma deadline_batch_frame:
  assumes "a \<notin> region best_deadline 8 \<union> region best_offset 8"
  shows "deadline_batch sh B x gs ts data scoop mirrorscoop best_deadline best_offset i m a = m a"
  unfolding deadline_batch_def Let_def
  by (rule fold_keeps[where g = "\<lambda>m. m a"]) (rule SET_BEST_DEADLINE_frame[OF assms])

lemma deadline_loop_keeps_aux:
  assumes "deadline_loop body B nonce_count i m = Some m'"
  shows "(\<forall>i m. g (body i m) = g m) \<longrightarrow> g m' = g m"
  using assms
proof (induction body B nonce_count i m m' rule: deadline_loop.raw_induct[rotated 1, consumes 1])
  case (1 f body B nonce_count i m m')
  show ?case
  proof (cases "i < nonce_count")
    case True
    with 1(2) have "f body B nonce_count (i + of_nat B) (body i m) = Some m'"
      by simp
    from 1(1)[OF this] show ?thesis by simp
  next
    case False
    with 1(2) show ?thesis by simp
  qed
qed

lemma deadline_loop_keeps:
  assumes "deadline_loop body B nonce_count i m = Some m'" and "\<And>i m. g (body i m) = g m"
  shows "g m' = g m"
  using deadline_loop_keeps_aux[OF assms(1), of g] assms(2) by simp

lemma find_best_deadline_writes:
  assumes "find_best_deadline sh gl B simd data scoop nonce_count gensig
      best_deadline best_offset m = Some m'"
    and "a \<notin> region best_deadline 8 \<union> region best_offset 8"
  shows "m' a = m a"
  using assms(1) unfolding find_best_deadline_def Let_def
  by (rule deadline_loop_keeps[where g = "\<lambda>m. m a"]) (rule deadline_batch_frame[OF assms(2)])

lemma load_bytes_frame:
  assumes "\<forall>a. a \<notin> W \<longrightarrow> m' a = m a" "region p n \<inter> W = {}"
  shows "load_bytes m' p n = load_bytes m p n"
proof -
  have "m' (p + of_nat k) = m (p + of_nat k)" if "k < n" for k
  proof (cases "k < 2 ^ 64")
    case True
    then have "unat (p + of_nat k - p) = k" by (simp add: unat_of_nat)
    with that have "p + of_nat k \<in> region p n" by (simp add: region_def)
    with assms show ?thesis by blast
  next
    case False
    have "unat (of_nat k :: u64) < 2 ^ 64" using unsigned_less[of "of_nat k :: u64"] by simp
    with False that have "unat (p + of_nat k - p) < n" by simp
    then have "p + of_nat k \<in> region p n" by (simp add: region_def)
    with assms show ?thesis by blast
  qed
  then show ?thesis by (simp add: load_bytes_def)
qed

lemma deadline_loop_from:
  assumes B: "0 < B" and bound: "unat cnt + B \<le> 2 ^ 64"
  shows "j \<le> (unat cnt + B - 1) div B \<Longrightarrow>
    deadline_loop body B cnt (of_nat (B * j)) m =
      Some (fold (\<lambda>j. body (of_nat (B * j))) [j..<(unat cnt + B - 1) div B] m)"
proof (induction "(unat cnt + B - 1) div B - j" arbitrary: j m)
  case 0
  then have j: "j = (unat cnt + B - 1) div B" by simp
  have "B * j \<le> unat cnt + B - 1" unfolding j by simp
  with bound B have lt: "B * j < 2 ^ 64" by linarith
  have "unat cnt \<le> B * j"
  proof -
    have "unat cnt + B - 1 < B * j + B" unfolding j using B
      by (metis dividend_less_times_div add.commute)
    then show ?thesis using B by linarith
  qed
  moreover have "unat (word_of_nat (B * j) :: u64) = B * j"
    using lt by (simp only: unat_of_nat len_word64 mod_less)
  ultimately have "\<not> (word_of_nat (B * j) :: u64) < cnt"
    by (simp only: word_less_nat_alt not_less)
  then show ?case
    by (subst deadline_loop.simps) (simp add: j)
next
  case (Suc d)
  let ?K = "(unat cnt + B - 1) div B"
  from Suc have jK: "j < ?K" by simp
  then have "B * (j + 1) \<le> B * ?K" using B by (metis Suc_eq_plus1 Suc_leI mult_le_mono2)
  also have "\<dots> \<le> unat cnt + B - 1" by simp
  finally have le: "B * j + B \<le> unat cnt + B - 1" by simp
  then have "B * j < unat cnt" using B by linarith
  moreover have "B * j < 2 ^ 64" using le bound B by linarith
  then have "unat (word_of_nat (B * j) :: u64) = B * j"
    by (simp only: unat_of_nat len_word64 mod_less)
  ultimately have c: "(word_of_nat (B * j) :: u64) < cnt"
    by (simp only: word_less_nat_alt)
  have n: "(word_of_nat (B * j) :: u64) + word_of_nat B = word_of_nat (B * Suc j)"
    by simp
  have IH: "deadline_loop body B cnt (word_of_nat (B * Suc j)) m' =
      Some (fold (\<lambda>j. body (word_of_nat (B * j))) [Suc j..<?K] m')" for m'
    using Suc(1)[of "Suc j" m'] Suc(2) jK by simp
  show ?case
    apply (subst deadline_loop.simps)
    apply (simp only: c if_True n IH)
    apply (subst upt_conv_Cons[OF jK])
    apply (simp only: fold_simps comp_def)
    done
qed

lemma dvd_bound64:
  assumes "B dvd 2 ^ 64" "0 < B" "B dvd unat (cnt :: u64)"
  shows "unat cnt + B \<le> 2 ^ 64"
proof -
  have lt: "unat cnt < 2 ^ 64" using unsigned_less[of cnt] by simp
  from assms obtain q where q: "unat cnt = B * q" by (auto simp: dvd_def)
  from assms obtain r where r: "(2::nat) ^ 64 = B * r" by (auto simp: dvd_def)
  from lt q r assms have "q < r" by (metis nat_mult_less_cancel1)
  then have "B * (q + 1) \<le> B * r" by (intro mult_le_mono2) simp
  then show ?thesis using q r by simp
qed

lemma ceil_div_dvd:
  assumes "0 < B" "B dvd (c :: nat)"
  shows "(c + B - 1) div B = c div B"
proof -
  from assms obtain q where q: "c = B * q" by (auto simp: dvd_def)
  have "(B - 1 + q * B) div B = q + (B - 1) div B"
    using assms by (intro div_mult_self1) simp
  moreover have "B * q + B - 1 = B - 1 + q * B" using assms by (simp add: mult.commute)
  moreover have "(B - 1) div B = 0" using assms by simp
  ultimately show ?thesis
    by (simp only: q add_0_right nonzero_mult_div_cancel_left) (use assms in simp)
qed

lemma find_best_deadline_returns:
  assumes "B = 8 \<or> B = 16" "B dvd unat nonce_count"
  shows "find_best_deadline sh gl B simd data scoop nonce_count gensig best_deadline best_offset m =
    Some (fold (\<lambda>j. deadline_batch sh B gl
                  (map (fst (prepare_inputs m gensig write_term B simd)) [0..<8 * B])
                  (map (snd (prepare_inputs m gensig write_term B simd)) [0..<8 * B])
                  data scoop (4095 - scoop) best_deadline best_offset (of_nat (B * j)))
            [0..<unat nonce_count div B] m)"
proof -
  from assms have B: "0 < B" "B dvd 2 ^ 64" by auto
  from deadline_loop_from[OF B(1) dvd_bound64[OF B(2) B(1) assms(2)], of 0]
  show ?thesis
    unfolding find_best_deadline_def Let_def ceil_div_dvd[OF B(1) assms(2)] by simp
qed

subsection \<open>The inputs of mshabal_deadline_fast\<close>

lemma gensig_simd_fold:
  "fst (fold (\<lambda>i. fold (broadcast_lane m gensig trm i (g i)) [0..<B]) js simd) =
     fold (\<lambda>i. fold (\<lambda>k a. a(i + k + 0 := load32 m (gensig + of_nat (g i)))) [0..<B]) js
       (fst simd)"
  by (intro fold_proj) (simp add: broadcast_lane_def)

lemma term_simd_fold:
  "snd (fold (\<lambda>i. fold (broadcast_lane m gensig trm i (g i)) [0..<B]) js simd) =
     fold (\<lambda>i. fold (\<lambda>k a. a(i + k + 0 := ld32 trm (g i))) [0..<B]) js (snd simd)"
  by (intro fold_proj) (simp add: broadcast_lane_def)

lemma gensig_simd:
  assumes "B = 8 \<or> B = 16"
  shows "fst (prepare_inputs m gensig trm B simd) x =
     (if x < 8 * B then load32 m (gensig + of_nat (4 * (x div B))) else fst simd x)"
proof -
  from fold2_upd1[of 0 "\<lambda>j k. load32 m (gensig + of_nat (j div (B div 4)))" B 0 8 "fst simd" x]
  show ?thesis
    unfolding prepare_inputs_def range_step_prepare[OF assms] gensig_simd_fold
    using assms by auto
qed

lemma term_simd:
  assumes "B = 8 \<or> B = 16"
  shows "snd (prepare_inputs m gensig trm B simd) x =
     (if x < 8 * B then ld32 trm (4 * (x div B)) else snd simd x)"
proof -
  from fold2_upd1[of 0 "\<lambda>j k. ld32 trm (j div (B div 4))" B 0 8 "snd simd" x]
  show ?thesis
    unfolding prepare_inputs_def range_step_prepare[OF assms] term_simd_fold
    using assms by auto
qed

lemma lane_map:
  assumes "0 < B" "b < B"
  shows "lane B b (map f [0..<n * B]) = map (\<lambda>w. f (w * B + b)) [0..<n]"
proof -
  have "w * B + b < n * B" if "w < n" for w
    using that lane_less[OF assms(2), of w n] by simp
  then show ?thesis
    using assms by (simp add: lane_def)
qed

lemma lane_gensig_simd:
  assumes B: "B = 8 \<or> B = 16" and b: "b < B"
  shows "lane B b (map (fst (prepare_inputs m gensig trm B simd)) [0..<8 * B]) =
     load_words m gensig 8"
proof -
  from B have "0 < B" by auto
  from lane_map[OF this b, of _ 8] show ?thesis
    by (simp add: gensig_simd[OF B] lane_less[OF b] lane_index[OF b] load_words_def
        del: of_nat_mult upt_rec_numeral)
qed

lemma lane_term_simd:
  assumes B: "B = 8 \<or> B = 16" and b: "b < B"
  shows "lane B b (map (snd (prepare_inputs m gensig write_term B simd)) [0..<8 * B]) =
     [0x80, 0, 0, 0, 0, 0, 0, 0]"
proof -
  from B have "0 < B" by auto
  have t: "ld32 write_term (4 * k) = (if k = 0 then 0x80 else 0)" if "k < 8" for k
    using that by (simp add: ld32_def word32_of_def term_nth)
  have "map (\<lambda>w. ld32 write_term (4 * w)) [0..<8] = map (\<lambda>w. if w = 0 then 0x80 else 0) [0..<8]"
    by (rule map_cong[OF refl]) (simp add: t)
  also have "\<dots> = [0x80, 0, 0, 0, 0, 0, 0, 0]"
    by (simp add: upt_conv_Cons)
  finally have c: "map (\<lambda>w. ld32 write_term (4 * w)) [0..<8] = [0x80, 0, 0, 0, 0, 0, 0, 0]" .
  have "map (\<lambda>w. snd (prepare_inputs m gensig write_term B simd) (w * B + b)) [0..<8] =
      map (\<lambda>w. ld32 write_term (4 * w)) [0..<8]"
    by (rule map_cong[OF refl])
       (simp add: term_simd[OF B] lane_less[OF b] lane_index[OF b] del: upt_rec_numeral)
  then show ?thesis
    unfolding lane_map[OF \<open>0 < B\<close> b, of _ 8] c .
qed

lemma lane_load_words:
  assumes B: "B = 8 \<or> B = 16" and b: "b < B"
  shows "lane B b (load_words m p (8 * B)) =
     map (\<lambda>w. load32 m (p + of_nat (4 * (w * B + b)))) [0..<8]"
proof -
  from B have "0 < B" by auto
  from lane_map[OF this b, of "\<lambda>j. load32 m (p + of_nat (4 * j))" 8] show ?thesis
    by (simp add: load_words_def del: of_nat_mult upt_rec_numeral)
qed

subsection \<open>The reduction\<close>

lemma best_fold:
  assumes nz: "\<forall>i<n. d i \<noteq> 0" and n: "0 < n" "n \<le> 2 ^ 64"
  shows "unat (snd (fold (best_step d) [0..<n] (0, o0))) < n \<and>
         d (unat (snd (fold (best_step d) [0..<n] (0, o0)))) =
           fst (fold (best_step d) [0..<n] (0, o0)) \<and>
         (\<forall>j<n. fst (fold (best_step d) [0..<n] (0, o0)) \<le> d j) \<and>
         (\<forall>j<unat (snd (fold (best_step d) [0..<n] (0, o0))).
            fst (fold (best_step d) [0..<n] (0, o0)) < d j)"
  using assms
proof (induction n)
  case 0
  then show ?case by simp
next
  case (Suc n)
  show ?case
  proof (cases "n = 0")
    case True
    then show ?thesis by (simp add: best_step_def)
  next
    case False
    let ?r = "fold (best_step d) [0..<n] (0, o0)"
    from False Suc.prems have IH: "unat (snd ?r) < n" "d (unat (snd ?r)) = fst ?r"
      "\<forall>j<n. fst ?r \<le> d j" "\<forall>j<unat (snd ?r). fst ?r < d j"
      using Suc.IH by auto
    have nz: "fst ?r \<noteq> 0" using IH(1,2) Suc.prems(1) by (metis less_Suc_eq)
    have un: "unat (of_nat n :: u64) = n"
      using Suc.prems(3) by (simp add: unat_of_nat)
    have step: "fold (best_step d) [0..<Suc n] (0, o0) = best_step d n ?r" by simp
    show ?thesis
    proof (cases "d n < fst ?r")
      case True
      then have r: "best_step d n ?r = (d n, of_nat n)" by (simp add: best_step_def)
      have "\<forall>j<Suc n. d n \<le> d j" using IH(3) True by (auto simp: less_Suc_eq)
      moreover have "\<forall>j<n. d n < d j" using IH(3) True by auto
      ultimately show ?thesis unfolding step r by (simp add: un)
    next
      case ge: False
      then have r: "best_step d n ?r = ?r" using nz by (simp add: best_step_def)
      have "\<forall>j<Suc n. fst ?r \<le> d j" using IH(3) ge by (auto simp: less_Suc_eq)
      then show ?thesis unfolding step r using IH by auto
    qed
  qed
qed

lemma fold_blocks:
  "fold (\<lambda>j. fold (\<lambda>k. f (B * j + k)) [0..<B]) [0..<Q] s = fold f [0..<Q * B] s"
proof (induction Q arbitrary: s)
  case 0
  show ?case by simp
next
  case (Suc Q)
  have "[0..<Q * B + B] = [0..<Q * B] @ [Q * B..<Q * B + B]"
    by (rule upt_add_eq_append) simp
  moreover have "[Q * B..<Q * B + B] = map (\<lambda>k. B * Q + k) [0..<B]"
    using map_add_upt[of "Q * B" B] by (simp add: add.commute mult.commute)
  ultimately have "[0..<Suc Q * B] = [0..<Q * B] @ map (\<lambda>k. B * Q + k) [0..<B]"
    by (simp add: add.commute)
  then show ?case
    by (simp add: Suc.IH fold_map comp_def)
qed

subsection \<open>The two result cells\<close>

lemma load_bytes_store64: "load_bytes (store64 p v m) p 8 = le_bytes64 v"
proof (rule nth_equalityI)
  show "length (load_bytes (store64 p v m) p 8) = length (le_bytes64 v)"
    by (simp add: load_bytes_def length_le_bytes64)
  fix k assume "k < length (load_bytes (store64 p v m) p 8)"
  then have k: "k < 8" by (simp add: load_bytes_def)
  then have "store_bytes p (le_bytes64 v) m (p + of_nat k) = le_bytes64 v ! k"
    by (intro store_bytes_at) (simp_all add: length_le_bytes64)
  with k show "load_bytes (store64 p v m) p 8 ! k = le_bytes64 v ! k"
    by (simp add: load_bytes_def store64_def)
qed

lemma load64_store64: "load64 (store64 p v m) p = v"
  by (simp add: load64_def load_bytes_store64 word64_of_le_bytes64)

lemma load64_store64_other:
  assumes "region p 8 \<inter> region q 8 = {}"
  shows "load64 (store64 q v m) p = load64 m p"
proof -
  have "\<forall>a. a \<notin> region q 8 \<longrightarrow> store64 q v m a = m a"
    by (simp add: store64_frame)
  from load_bytes_frame[OF this assms] show ?thesis by (simp add: load64_def)
qed

lemma SET_BEST_DEADLINE_values:
  assumes "region best_deadline 8 \<inter> region best_offset 8 = {}"
  shows "(load64 (SET_BEST_DEADLINE best_deadline best_offset (d i) (of_nat i) m) best_deadline,
          load64 (SET_BEST_DEADLINE best_deadline best_offset (d i) (of_nat i) m) best_offset) =
         best_step d i (load64 m best_deadline, load64 m best_offset)"
proof -
  have "region best_offset 8 \<inter> region best_deadline 8 = {}" using assms by blast
  then show ?thesis
    by (simp add: SET_BEST_DEADLINE_def best_step_def load64_store64
        load64_store64_other[OF assms])
qed

lemma unat_of_nat_le: "unat (of_nat x :: u64) \<le> x"
  by (simp add: unat_of_nat)

lemma region_offset:
  assumes "k < n"
  shows "p + of_nat k \<in> region p n"
proof -
  have "unat (p + of_nat k - p) = unat (of_nat k :: u64)" by simp
  with unat_of_nat_le[of k] assms show ?thesis by (simp add: region_def)
qed

lemma region_elem:
  assumes "a \<in> region p n"
  shows "\<exists>k<n. a = p + of_nat k"
proof -
  from assms have "unat (a - p) < n" by (simp add: region_def)
  moreover have "a = p + of_nat (unat (a - p))" by simp
  ultimately show ?thesis by blast
qed

lemma load32_frame:
  assumes "\<forall>a. a \<notin> W \<longrightarrow> m' a = m a" "region p 4 \<inter> W = {}"
  shows "load32 m' p = load32 m p"
proof -
  have "p + of_nat k \<notin> W" if "k < 4" for k
    using region_offset[OF that, of p] assms(2) by blast
  from this[of 0] this[of 1] this[of 2] this[of 3] assms(1) show ?thesis
    by (simp add: load32_def)
qed

lemma load_words_frame:
  assumes "\<forall>a. a \<notin> W \<longrightarrow> m' a = m a" "region p (4 * n) \<inter> W = {}"
  shows "load_words m' p n = load_words m p n"
proof -
  have "load32 m' (p + of_nat (4 * j)) = load32 m (p + of_nat (4 * j))" if "j < n" for j
  proof (rule load32_frame[OF assms(1)])
    show "region (p + of_nat (4 * j)) 4 \<inter> W = {}"
    proof -
      have "a \<in> region p (4 * n)" if "a \<in> region (p + of_nat (4 * j)) 4" for a
      proof -
        from region_elem[OF that] obtain k where k: "k < 4" "a = p + of_nat (4 * j) + of_nat k"
          by blast
        then have "a = p + of_nat (4 * j + k)" by simp
        moreover have "4 * j + k < 4 * n" using k \<open>j < n\<close> by simp
        ultimately show ?thesis using region_offset by blast
      qed
      with assms(2) show ?thesis by blast
    qed
  qed
  then show ?thesis by (simp add: load_words_def del: of_nat_mult)
qed

text \<open>The two slabs of a batch lie inside the cache of nonce_count nonces.\<close>

lemma slab_in_cache:
  assumes j: "B * Suc j \<le> cnt" and c: "c + 32 * B \<le> B * NONCE_SIZE"
  shows "region (data + of_nat (B * j) * of_nat NONCE_SIZE + of_nat c) (4 * (8 * B)) \<subseteq>
     region data (cnt * NONCE_SIZE)"
proof
  fix a assume "a \<in> region (data + of_nat (B * j) * of_nat NONCE_SIZE + of_nat c) (4 * (8 * B))"
  from region_elem[OF this] obtain k where k: "k < 4 * (8 * B)"
    "a = data + of_nat (B * j) * of_nat NONCE_SIZE + of_nat c + of_nat k" by blast
  then have a: "a = data + of_nat (B * j * NONCE_SIZE + c + k)" by simp
  have "B * j * NONCE_SIZE + c + k < B * j * NONCE_SIZE + B * NONCE_SIZE" using k c by simp
  also have "\<dots> = B * Suc j * NONCE_SIZE" by (simp add: algebra_simps)
  also have "\<dots> \<le> cnt * NONCE_SIZE" using j by (rule mult_le_mono1)
  finally show "a \<in> region data (cnt * NONCE_SIZE)"
    unfolding a by (rule region_offset)
qed

lemma u1_offset:
  "data + of_nat (B * j) * of_nat NONCE_SIZE + scoop * of_nat SCOOP_SIZE * of_nat B =
     data + of_nat (B * j) * of_nat NONCE_SIZE + (of_nat (unat scoop * SCOOP_SIZE * B) :: u64)"
  by simp

lemma u2_offset:
  "data + of_nat (B * j) * of_nat NONCE_SIZE + mirror * of_nat SCOOP_SIZE * of_nat B
       + of_nat HASH_SIZE * of_nat B =
     data + of_nat (B * j) * of_nat NONCE_SIZE +
       (of_nat (unat mirror * SCOOP_SIZE * B + HASH_SIZE * B) :: u64)"
  by simp

lemma batch_deadlines_frame:
  assumes same: "\<forall>a. a \<notin> W \<longrightarrow> m' a = m a"
    and dis: "region data (cnt * NONCE_SIZE) \<inter> W = {}"
    and j: "B * Suc j \<le> cnt" and s: "unat scoop \<le> 4095" "unat mirror \<le> 4095"
  shows "batch_deadlines sh B x gs ts data scoop mirror (of_nat (B * j)) m' =
     batch_deadlines sh B x gs ts data scoop mirror (of_nat (B * j)) m"
proof -
  have 1: "unat scoop * SCOOP_SIZE * B + 32 * B \<le> B * NONCE_SIZE"
  proof -
    have "unat scoop * 64 + 32 \<le> 262144" using s(1) by linarith
    then have "(unat scoop * 64 + 32) * B \<le> 262144 * B" by (rule mult_le_mono1)
    then show ?thesis
      by (simp add: NONCE_SIZE_def HASH_CAP_def SCOOP_SIZE_def add_mult_distrib mult.commute)
  qed
  have 2: "unat mirror * SCOOP_SIZE * B + HASH_SIZE * B + 32 * B \<le> B * NONCE_SIZE"
  proof -
    have "unat mirror * 64 + 32 + 32 \<le> 262144" using s(2) by linarith
    then have "(unat mirror * 64 + 32 + 32) * B \<le> 262144 * B" by (rule mult_le_mono1)
    then show ?thesis
      by (simp add: NONCE_SIZE_def HASH_CAP_def SCOOP_SIZE_def HASH_SIZE_def add_mult_distrib
          mult.commute)
  qed
  from slab_in_cache[OF j 1, of data] dis
  have d1: "region (data + of_nat (B * j) * of_nat NONCE_SIZE
      + scoop * of_nat SCOOP_SIZE * of_nat B) (4 * (8 * B)) \<inter> W = {}"
    unfolding u1_offset by blast
  from slab_in_cache[OF j 2, of data] dis
  have d2: "region (data + of_nat (B * j) * of_nat NONCE_SIZE
      + mirror * of_nat SCOOP_SIZE * of_nat B + of_nat HASH_SIZE * of_nat B) (4 * (8 * B)) \<inter> W = {}"
    unfolding u2_offset by blast
  show ?thesis
    unfolding batch_deadlines_def Let_def
    by (simp only: load_words_frame[OF same d1] load_words_frame[OF same d2])
qed

lemma fold_abs_inv:
  assumes "\<And>x s. x \<in> set xs \<Longrightarrow> I s \<Longrightarrow> I (F x s) \<and> ab (F x s) = G x (ab s)" "I s"
  shows "I (fold F xs s) \<and> ab (fold F xs s) = fold G xs (ab s)"
  using assms
proof (induction xs arbitrary: s)
  case Nil
  then show ?case by simp
next
  case (Cons x xs)
  from Cons.prems(1)[of x s] Cons.prems(2)
  have 1: "I (F x s)" "ab (F x s) = G x (ab s)" by simp_all
  from Cons.IH[of "F x s"] Cons.prems(1) 1 show ?case by simp
qed

lemma nonce_deadline_lane:
  assumes "k < B"
  shows "nonce_deadline sh gl B simd data scoop gensig m (B * j + k) =
     batch_deadlines sh B gl
       (map (fst (prepare_inputs m gensig write_term B simd)) [0..<8 * B])
       (map (snd (prepare_inputs m gensig write_term B simd)) [0..<8 * B])
       data scoop (4095 - scoop) (of_nat (B * j)) m ! k"
  using assms by (simp add: nonce_deadline_def)

text \<open>One batch, on the two result cells: SET_BEST_DEADLINE for the B nonces of the
  batch, with the deadlines the entry memory gives.\<close>

lemma deadline_batch_values:
  assumes same: "\<forall>a. a \<notin> region best_deadline 8 \<union> region best_offset 8 \<longrightarrow> m' a = m a"
    and cells: "region best_deadline 8 \<inter> region best_offset 8 = {}"
    and dis: "region data (cnt * NONCE_SIZE) \<inter> (region best_deadline 8 \<union> region best_offset 8) = {}"
    and j: "B * Suc j \<le> cnt" and s: "scoop \<le> 4095"
  shows "(\<forall>a. a \<notin> region best_deadline 8 \<union> region best_offset 8 \<longrightarrow>
            deadline_batch sh B gl
              (map (fst (prepare_inputs m gensig write_term B simd)) [0..<8 * B])
              (map (snd (prepare_inputs m gensig write_term B simd)) [0..<8 * B])
              data scoop (4095 - scoop) best_deadline best_offset (of_nat (B * j)) m' a = m a) \<and>
         (load64 (deadline_batch sh B gl
              (map (fst (prepare_inputs m gensig write_term B simd)) [0..<8 * B])
              (map (snd (prepare_inputs m gensig write_term B simd)) [0..<8 * B])
              data scoop (4095 - scoop) best_deadline best_offset (of_nat (B * j)) m')
            best_deadline,
          load64 (deadline_batch sh B gl
              (map (fst (prepare_inputs m gensig write_term B simd)) [0..<8 * B])
              (map (snd (prepare_inputs m gensig write_term B simd)) [0..<8 * B])
              data scoop (4095 - scoop) best_deadline best_offset (of_nat (B * j)) m')
            best_offset) =
         fold (\<lambda>k. best_step (nonce_deadline sh gl B simd data scoop gensig m) (B * j + k))
           [0..<B] (load64 m' best_deadline, load64 m' best_offset)"
proof -
  let ?gs = "map (fst (prepare_inputs m gensig write_term B simd)) [0..<8 * B]"
  let ?ts = "map (snd (prepare_inputs m gensig write_term B simd)) [0..<8 * B]"
  let ?d = "nonce_deadline sh gl B simd data scoop gensig m"
  have s': "unat scoop \<le> 4095" "unat (4095 - scoop) \<le> 4095"
    using s by (simp_all add: word_le_nat_alt unat_sub)
  have bd: "batch_deadlines sh B gl ?gs ?ts data scoop (4095 - scoop) (of_nat (B * j)) m' =
      batch_deadlines sh B gl ?gs ?ts data scoop (4095 - scoop) (of_nat (B * j)) m"
    by (rule batch_deadlines_frame[OF same dis j s'])
  have lanes: "SET_BEST_DEADLINE best_deadline best_offset
        (batch_deadlines sh B gl ?gs ?ts data scoop (4095 - scoop) (of_nat (B * j)) m ! k)
        (of_nat (B * j) + of_nat k) mm =
      SET_BEST_DEADLINE best_deadline best_offset (?d (B * j + k)) (of_nat (B * j + k)) mm"
    if "k \<in> set [0..<B]" for k mm
    using that by (simp add: nonce_deadline_lane)
  have frame: "\<forall>a. a \<notin> region best_deadline 8 \<union> region best_offset 8 \<longrightarrow>
      deadline_batch sh B gl ?gs ?ts data scoop (4095 - scoop) best_deadline best_offset
        (of_nat (B * j)) m' a = m a"
    using same by (simp add: deadline_batch_frame)
  have "(\<lambda>mm. (load64 mm best_deadline, load64 mm best_offset))
      (fold (\<lambda>k. SET_BEST_DEADLINE best_deadline best_offset
          (batch_deadlines sh B gl ?gs ?ts data scoop (4095 - scoop) (of_nat (B * j)) m ! k)
          (of_nat (B * j) + of_nat k)) [0..<B] m') =
      fold (\<lambda>k. best_step ?d (B * j + k)) [0..<B] (load64 m' best_deadline, load64 m' best_offset)"
    using fold_abs_inv[where I = "\<lambda>mm. True" and xs = "[0..<B]" and s = m'
        and ab = "\<lambda>mm. (load64 mm best_deadline, load64 mm best_offset)"
        and F = "\<lambda>k. SET_BEST_DEADLINE best_deadline best_offset
          (batch_deadlines sh B gl ?gs ?ts data scoop (4095 - scoop) (of_nat (B * j)) m ! k)
          (of_nat (B * j) + of_nat k)"
        and G = "\<lambda>k. best_step ?d (B * j + k)"]
    by (simp only: lanes SET_BEST_DEADLINE_values[OF cells] simp_thms)
  with frame show ?thesis
    unfolding deadline_batch_def[of sh B gl ?gs ?ts data scoop "4095 - scoop" best_deadline
        best_offset "of_nat (B * j)" m'] Let_def bd
    by (simp only: deadline_batch_def Let_def bd simp_thms)
qed

lemma find_best_deadline_values:
  assumes B: "B = 8 \<or> B = 16" and dvd: "B dvd unat nonce_count" and s: "scoop \<le> 4095"
    and cells: "region best_deadline 8 \<inter> region best_offset 8 = {}"
    and dis: "region data (unat nonce_count * NONCE_SIZE) \<inter>
        (region best_deadline 8 \<union> region best_offset 8) = {}"
  shows "\<exists>m'. find_best_deadline sh gl B simd data scoop nonce_count gensig
            best_deadline best_offset m = Some m' \<and>
          (load64 m' best_deadline, load64 m' best_offset) =
            fold (best_step (nonce_deadline sh gl B simd data scoop gensig m))
              [0..<unat nonce_count] (load64 m best_deadline, load64 m best_offset)"
proof -
  let ?gs = "map (fst (prepare_inputs m gensig write_term B simd)) [0..<8 * B]"
  let ?ts = "map (snd (prepare_inputs m gensig write_term B simd)) [0..<8 * B]"
  let ?d = "nonce_deadline sh gl B simd data scoop gensig m"
  let ?Q = "unat nonce_count div B"
  let ?F = "\<lambda>j. deadline_batch sh B gl ?gs ?ts data scoop (4095 - scoop) best_deadline best_offset
      (of_nat (B * j))"
  let ?I = "\<lambda>mm. \<forall>a. a \<notin> region best_deadline 8 \<union> region best_offset 8 \<longrightarrow> mm a = m a"
  from dvd have Q: "B * ?Q = unat nonce_count" by simp
  have step: "?I (?F j mm) \<and>
      (load64 (?F j mm) best_deadline, load64 (?F j mm) best_offset) =
      fold (\<lambda>k. best_step ?d (B * j + k)) [0..<B] (load64 mm best_deadline, load64 mm best_offset)"
    if "j \<in> set [0..<?Q]" "?I mm" for j mm
  proof -
    from that(1) have "Suc j \<le> ?Q" by simp
    then have "B * Suc j \<le> B * ?Q" by (rule mult_le_mono2)
    then have "B * Suc j \<le> unat nonce_count" by (simp only: Q)
    from deadline_batch_values[OF that(2) cells dis this s] show ?thesis .
  qed
  have I0: "?I m" by simp
  from fold_abs_inv[where I = ?I and F = ?F and xs = "[0..<?Q]" and s = m
      and ab = "\<lambda>mm. (load64 mm best_deadline, load64 mm best_offset)"
      and G = "\<lambda>j. fold (\<lambda>k. best_step ?d (B * j + k)) [0..<B]", OF step I0]
  have 1: "(load64 (fold ?F [0..<?Q] m) best_deadline, load64 (fold ?F [0..<?Q] m) best_offset) =
      fold (\<lambda>j. fold (\<lambda>k. best_step ?d (B * j + k)) [0..<B]) [0..<?Q]
        (load64 m best_deadline, load64 m best_offset)"
    by (rule conjunct2)
  have 2: "?Q * B = unat nonce_count" using Q by (simp only: mult.commute)
  have 3: "(load64 (fold ?F [0..<?Q] m) best_deadline, load64 (fold ?F [0..<?Q] m) best_offset) =
      fold (best_step ?d) [0..<unat nonce_count] (load64 m best_deadline, load64 m best_offset)"
    unfolding 1 fold_blocks 2 ..
  show ?thesis
    unfolding find_best_deadline_returns[OF B dvd]
    by (rule exI[of _ "fold ?F [0..<?Q] m"]) (simp only: 3 simp_thms)
qed


lemma region_disjoint:
  assumes "n \<le> unat (q - p)" "n' \<le> unat (p - q)"
  shows "region p n \<inter> region q n' = {}"
proof -
  have False if a: "unat (a - p) < n" "unat (a - q) < n'" for a
  proof (cases "a - q \<le> a - p")
    case True
    then have "unat ((a - p) - (a - q)) = unat (a - p) - unat (a - q)" by (rule unat_sub)
    moreover have "(a - p) - (a - q) = q - p" by simp
    ultimately show False using a assms by simp
  next
    case False
    then have "a - p \<le> a - q" by simp
    then have "unat ((a - q) - (a - p)) = unat (a - q) - unat (a - p)" by (rule unat_sub)
    moreover have "(a - q) - (a - p) = p - q" by simp
    ultimately show False using a assms by simp
  qed
  then show ?thesis by (auto simp: region_def)
qed

lemma sh0_nonzero: "sh0 x msg \<noteq> 0"
proof -
  have "unat (msg ! 8) < 2 ^ 32" using unsigned_less[of "msg ! 8"] by simp
  then have u: "unat (ucast (msg ! 8) :: u64) = unat (msg ! 8)"
    by (simp add: unsigned_ucast_eq take_bit_nat_eq_self)
  have "unat (ucast (msg ! 8) + 1 :: u64) = (unat (msg ! 8) + 1) mod 2 ^ 64"
    by (simp add: unat_word_ariths u)
  also have "\<dots> = unat (msg ! 8) + 1" using \<open>unat (msg ! 8) < 2 ^ 32\<close> by simp
  finally have "unat (sh0 x msg) \<noteq> 0" by (simp add: sh0_def)
  then show ?thesis by (metis unat_0)
qed

lemma batch_deadline_lane:
  assumes "B = 8 \<or> B = 16" and "b < B"
  shows "batch_deadlines sh B x
            (map (fst (prepare_inputs m_entry gensig write_term B simd)) [0..<8 * B])
            (map (snd (prepare_inputs m_entry gensig write_term B simd)) [0..<8 * B])
            data scoop mirrorscoop i m ! b =
           sh x (load_words m_entry gensig 8 @
                 map (\<lambda>w. load32 m (data + i * of_nat NONCE_SIZE
                              + scoop * of_nat SCOOP_SIZE * of_nat B
                              + of_nat (4 * (w * B + b)))) [0..<8] @
                 map (\<lambda>w. load32 m (data + i * of_nat NONCE_SIZE
                              + mirrorscoop * of_nat SCOOP_SIZE * of_nat B
                              + of_nat HASH_SIZE * of_nat B
                              + of_nat (4 * (w * B + b)))) [0..<8] @
                 [0x80, 0, 0, 0, 0, 0, 0, 0])"
  unfolding batch_deadlines_def Let_def mshabal_deadline_fast_def
  using assms(2)
  by (simp only: nth_map length_upt diff_zero nth_upt add_0 lane_gensig_simd[OF assms]
      lane_term_simd[OF assms] lane_load_words[OF assms])

lemma nonce_deadline_sh0:
  assumes "i < 8"
  shows "nonce_deadline sh0 () 8 simd data scoop gensig m i =
     ucast (load32 m (data + scoop * 512 + of_nat (4 * i))) + 1"
proof -
  have a: "i mod 8 = i" "i - i mod 8 = 0" using assms by simp_all
  have "nonce_deadline sh0 () 8 simd data scoop gensig m i =
      batch_deadlines sh0 8 ()
        (map (fst (prepare_inputs m gensig write_term 8 simd)) [0..<8 * 8])
        (map (snd (prepare_inputs m gensig write_term 8 simd)) [0..<8 * 8])
        data scoop (4095 - scoop) (of_nat 0) m ! i"
    unfolding nonce_deadline_def a by simp
  also have "\<dots> = sh0 () (load_words m gensig 8 @
                 map (\<lambda>w. load32 m (data + of_nat 0 * of_nat NONCE_SIZE
                              + scoop * of_nat SCOOP_SIZE * of_nat 8
                              + of_nat (4 * (w * 8 + i)))) [0..<8] @
                 map (\<lambda>w. load32 m (data + of_nat 0 * of_nat NONCE_SIZE
                              + (4095 - scoop) * of_nat SCOOP_SIZE * of_nat 8
                              + of_nat HASH_SIZE * of_nat 8
                              + of_nat (4 * (w * 8 + i)))) [0..<8] @
                 [0x80, 0, 0, 0, 0, 0, 0, 0])"
    by (rule batch_deadline_lane) (simp_all add: assms)
  also have "\<dots> = ucast (load32 m (data + scoop * 512 + of_nat (4 * i))) + 1"
    by (simp add: sh0_def nth_append load_words_def upt_conv_Cons SCOOP_SIZE_def
        mult.commute[of scoop] del: of_nat_mult)
  finally show ?thesis .
qed

lemma m0_deadlines:
  "nonce_deadline sh0 () 8 simd 0x10F0 0 gensig m0 0 = 0xF3F2F1F1"
  "nonce_deadline sh0 () 8 simd 0x10F0 0 gensig m0 1 = 0xF7F6F5F5"
  "nonce_deadline sh0 () 8 simd 0x10F0 0 gensig m0 2 = 0xFBFAF9F9"
  "nonce_deadline sh0 () 8 simd 0x10F0 0 gensig m0 3 = 0xFFFEFDFD"
  "nonce_deadline sh0 () 8 simd 0x10F0 0 gensig m0 4 = 0x03020101"
  "nonce_deadline sh0 () 8 simd 0x10F0 0 gensig m0 5 = 0x07060505"
  "nonce_deadline sh0 () 8 simd 0x10F0 0 gensig m0 6 = 0x0B0A0909"
  "nonce_deadline sh0 () 8 simd 0x10F0 0 gensig m0 7 = 0x0F0E0D0D"
  by (simp_all add: nonce_deadline_sh0 load32_def m0_def word32_of_def)

lemma lt8_cases:
  assumes "i < (8::nat)"
  shows "i = 0 \<or> i = 1 \<or> i = 2 \<or> i = 3 \<or> i = 4 \<or> i = 5 \<or> i = 6 \<or> i = 7"
  using assms by arith

lemma m0_deadline_set:
  "nonce_deadline sh0 () 8 simd 0x10F0 0 gensig m0 ` {i. i < 8} =
     {0xF3F2F1F1, 0xF7F6F5F5, 0xFBFAF9F9, 0xFFFEFDFD, 0x03020101, 0x07060505, 0x0B0A0909,
      0x0F0E0D0D}"
proof -
  have "{i::nat. i < 8} = {0, 1, 2, 3, 4, 5, 6, 7}" by auto
  then show ?thesis by (simp add: m0_deadlines m0_deadlines(2)[unfolded One_nat_def])
qed

lemma m0_deadline_min:
  "Min (nonce_deadline sh0 () 8 simd 0x10F0 0 gensig m0 ` {i. i < 8}) = 0x03020101"
  unfolding m0_deadline_set by simp

lemma m0_deadline_4:
  assumes "i < 8" and "nonce_deadline sh0 () 8 simd 0x10F0 0 gensig m0 i = 0x03020101"
  shows "i = 4"
  using lt8_cases[OF assms(1)] assms(2) by (auto simp: m0_deadlines m0_deadlines(2)[unfolded One_nat_def])

lemma m0_deadline_nonzero:
  assumes "i < 8"
  shows "nonce_deadline sh0 () 8 simd 0x10F0 0 gensig m0 i \<noteq> 0"
  using lt8_cases[OF assms(1)] by (auto simp: m0_deadlines m0_deadlines(2)[unfolded One_nat_def])

lemma m0_cells:
  "load64 m0 0x10 = 0"
  "region 0x10 8 \<inter> region 0x20 8 = {}"
  "region 0x10F0 (8 * NONCE_SIZE) \<inter> (region 0x10 8 \<union> region 0x20 8) = {}"
proof -
  show "load64 m0 0x10 = 0"
    by (simp add: load64_def load_bytes_def m0_def word64_of_def upt_conv_Cons)
  show "region 0x10 8 \<inter> region 0x20 8 = {}"
    by (rule region_disjoint) simp_all
  have "region 0x10F0 (8 * NONCE_SIZE) \<inter> region 0x10 8 = {}"
    by (rule region_disjoint) (simp_all add: NONCE_SIZE_def HASH_CAP_def SCOOP_SIZE_def)
  moreover have "region 0x10F0 (8 * NONCE_SIZE) \<inter> region 0x20 8 = {}"
    by (rule region_disjoint) (simp_all add: NONCE_SIZE_def HASH_CAP_def SCOOP_SIZE_def)
  ultimately show "region 0x10F0 (8 * NONCE_SIZE) \<inter> (region 0x10 8 \<union> region 0x20 8) = {}"
    by blast
qed








lemma deadline_batch_lanes:
  assumes B: "B = 8 \<or> B = 16"
  shows "deadline_batch sh B x
            (map (fst (prepare_inputs m_entry gensig write_term B simd)) [0..<8 * B])
            (map (snd (prepare_inputs m_entry gensig write_term B simd)) [0..<8 * B])
            data scoop (4095 - scoop) best_deadline best_offset i m =
         fold (\<lambda>b. SET_BEST_DEADLINE best_deadline best_offset
                     (sh x (lane_message B m_entry gensig m data scoop i b)) (i + of_nat b))
           [0..<B] m"
  unfolding deadline_batch_def Let_def lane_message_def
  by (rule fold_cong[OF refl refl]) (simp add: batch_deadline_lane[OF B] del: upt_rec_numeral)

lemma length_lane_message: "length (lane_message B m_entry gensig m data scoop i b) = 32"
  by (simp add: lane_message_def load_words_def del: upt_rec_numeral)

section \<open>The claims\<close>

text \<open>C4. Rounds 2 to 128 are 127 calls of mshabal_hash_fast. Call k, for k from 0 to
  126, has its message at \<open>cache[i * B]\<close> for the byte offset \<open>i = HASH_SIZE * (8191 - k)\<close>,
  which runs from NONCE_SIZE - HASH_SIZE down to NONCE_SIZE - HASH_CAP + HASH_SIZE; its
  termination string is t1 when \<open>i % 64 = 0\<close> and t2 otherwise; its output goes to
  \<open>cache[(i - HASH_SIZE) * B]\<close>, the place of hash 8190 - k, from hash 8190 down to hash
  8064.\<close>

theorem early_phase_calls:
  "map snd (hash_log (early_phase h B (NONCE_SIZE - HASH_SIZE) s)) =
     map snd (hash_log s) @
     map (\<lambda>k. let i = HASH_SIZE * (8191 - k) in
            \<lparr>message = Some (i * B), tmpl = (if i mod 64 = 0 then T1 else T2),
             dst = Cache ((i - HASH_SIZE) * B), len = drop_bit 6 (NONCE_SIZE + 16 - i)\<rparr>)
       [0..<127]"
  by (rule early_phase_log)

text \<open>C8, as stated: a batch would call mshabal_hash_fast exactly 8192 times before the
  XOR pass. It calls it 8193 times.\<close>

theorem hash_invocations_counterexample:
  "length (hash_log (hash_rounds h0 () 8 0 0 blank)) \<noteq> length (hash_log blank) + 8192"
  by (simp add: length_hash_rounds)

text \<open>C8, amended. Before the XOR pass a batch calls mshabal_hash_fast 8193 times: 8192
  calls that write the hashes 8191 down to 0 of the batch into the cache, call k at
  \<open>cache[HASH_SIZE * (8191 - k) * B]\<close>, and one more call, the final hash over the
  whole batch, that writes to the buffer \<open>final\<close>. The XOR pass and the advance of the
  cache pointer call it no more.\<close>

theorem hash_invocations_per_batch:
  "length (hash_log (hash_rounds h gl B st n s)) = length (hash_log s) + 8193 \<and>
   map (dst \<circ> snd) (drop (length (hash_log s)) (hash_log (hash_rounds h gl B st n s))) =
     map (\<lambda>k. Cache (HASH_SIZE * (8191 - k) * B)) [0..<8192] @ [Final] \<and>
   hash_log (noncegen_batch h gl B st n s) = hash_log (hash_rounds h gl B st n s)"
  by (simp only: length_hash_rounds dsts_hash_rounds hash_log_batch)

text \<open>C10, as stated: the batch loop would terminate for every value of local_nonces.
  For \<open>local_nonces = 2 ^ 64 - 1\<close> the counter of noncegen_avx2 takes the multiples of 8,
  all of them below local_nonces, and wraps from \<open>2 ^ 64 - 8\<close> to 0: the loop never
  ends.\<close>

theorem batch_loop_counterexample:
  "noncegen_loop h0 () 8 0 18446744073709551615 0 blank = None"
  by (rule noncegen_loop_never) simp_all

text \<open>C10, amended. For B = 8 and B = 16 the batch loop terminates exactly when
  \<open>local_nonces \<le> 2 ^ 64 - B\<close>, which holds for every multiple of B and for every other
  value for which \<open>local_nonces + B\<close> does not overflow 64 bits. It then runs the batches
  \<open>n = 0, B, 2 * B, \<dots>\<close>, \<open>ceil (local_nonces / B)\<close> of them (local_nonces / B when B
  divides local_nonces), and leaves the cache pointer advanced by that many batches of B
  nonces: the count is rounded up. For the remaining values, which are not multiples of
  B, the counter wraps and the loop does not terminate.\<close>

theorem batch_loop_iterations:
  assumes "B = 8 \<or> B = 16"
  shows "(B dvd unat local_nonces \<or> unat local_nonces + B < 2 ^ 64 \<longrightarrow>
            (\<exists>s'. noncegen_loop h gl B st local_nonces 0 s = Some s' \<and>
               s' = fold (\<lambda>j. noncegen_batch h gl B st (of_nat (B * j)))
                      [0..<(unat local_nonces + B - 1) div B] s \<and>
               cache s' = cache s +
                 of_nat ((unat local_nonces + B - 1) div B * (B * NONCE_SIZE)))) \<and>
         (B dvd unat local_nonces \<longrightarrow>
            (unat local_nonces + B - 1) div B = unat local_nonces div B) \<and>
         (\<not> (B dvd unat local_nonces \<or> unat local_nonces + B < 2 ^ 64) \<longrightarrow>
            noncegen_loop h gl B st local_nonces 0 s = None)"
proof -
  from assms have B: "0 < B" "B dvd 2 ^ 64" by auto
  have lt: "unat local_nonces < 2 ^ 64" using unsigned_less[of local_nonces] by simp
  have dvd_bound: "unat local_nonces + B \<le> 2 ^ 64" if d: "B dvd unat local_nonces"
  proof -
    from d obtain q where q: "unat local_nonces = B * q" by (auto simp: dvd_def)
    from B obtain r where r: "(2::nat) ^ 64 = B * r" by (auto simp: dvd_def)
    from lt q r B have "q < r" by (metis nat_mult_less_cancel1)
    then have "B * (q + 1) \<le> B * r" by (intro mult_le_mono2) simp
    then show ?thesis using q r by simp
  qed
  have 1: "\<exists>s'. noncegen_loop h gl B st local_nonces 0 s = Some s' \<and>
               s' = fold (\<lambda>j. noncegen_batch h gl B st (of_nat (B * j)))
                      [0..<(unat local_nonces + B - 1) div B] s \<and>
               cache s' = cache s +
                 of_nat ((unat local_nonces + B - 1) div B * (B * NONCE_SIZE))"
    if "B dvd unat local_nonces \<or> unat local_nonces + B < 2 ^ 64"
  proof -
    from that dvd_bound have "unat local_nonces + B \<le> 2 ^ 64" by auto
    from noncegen_loop_from[OF B(1) this, of 0 h gl st s] show ?thesis
      by (simp add: cache_fold_batch)
  qed
  have 2: "(unat local_nonces + B - 1) div B = unat local_nonces div B"
    if d: "B dvd unat local_nonces"
  proof -
    from d obtain q where q: "unat local_nonces = B * q" by (auto simp: dvd_def)
    have "(B - 1 + q * B) div B = q + (B - 1) div B"
      using B by (intro div_mult_self1) simp
    moreover have "B * q + B - 1 = B - 1 + q * B" using B by (simp add: mult.commute)
    moreover have "(B - 1) div B = 0" using B by simp
    ultimately show ?thesis by (simp only: q add_0_right nonzero_mult_div_cancel_left) (use B in simp)
  qed
  have 3: "noncegen_loop h gl B st local_nonces 0 s = None"
    if "\<not> (B dvd unat local_nonces \<or> unat local_nonces + B < 2 ^ 64)"
  proof -
    from that have n: "\<not> B dvd unat local_nonces" "2 ^ 64 \<le> unat local_nonces + B" by auto
    have "unat local_nonces + B \<noteq> 2 ^ 64"
    proof
      assume "unat local_nonces + B = 2 ^ 64"
      with B have "B dvd unat local_nonces + B" by simp
      then have "B dvd unat local_nonces" by simp
      with n show False by simp
    qed
    with n have "2 ^ 64 < unat local_nonces + B" by simp
    from noncegen_loop_never[OF B(2) B(1) this] show ?thesis .
  qed
  from 1 2 3 show ?thesis by blast
qed

theorem batch_loop_iterations_witness:
  "noncegen_loop h0 () 8 0 12 0 blank =
     Some (noncegen_batch h0 () 8 0 8 (noncegen_batch h0 () 8 0 0 blank)) \<and>
   noncegen_loop h0 () 8 0 16 0 blank =
     Some (noncegen_batch h0 () 8 0 8 (noncegen_batch h0 () 8 0 0 blank)) \<and>
   noncegen_loop h0 () 8 0 18446744073709551612 0 blank = None"
  using batch_loop_iterations[of 8 12 h0 "()" 0 blank]
    batch_loop_iterations[of 8 16 h0 "()" 0 blank]
    batch_loop_iterations[of 8 18446744073709551612 h0 "()" 0 blank]
  by (simp add: upt_conv_Cons)



text \<open>C6. Round 1 of a batch is one call of mshabal_hash_fast with no message and
  termination string 1 only; its output goes to \<open>cache[B * (NONCE_SIZE - HASH_SIZE)]\<close>,
  the place of hash 8191 of the batch, and is what a load at that place returns. The
  copy puts the same words into the first half of termination string 2, so that the
  first 32 bytes of every lane of t2 are the 32 bytes of the hash of that lane; the
  second half of t2 stays as the loop over the nonce numbers left it (the seed), and
  nothing else in the batch writes t2.\<close>

theorem first_hash_into_t2:
  assumes "B = 8 \<or> B = 16" and "b < B"
  shows "hash_log (round1 h gl B st n s) =
           hash_log s @ [(gl, \<lparr>message = None, tmpl = T1,
                                dst = Cache (B * (NONCE_SIZE - HASH_SIZE)), len = 0\<rparr>)] \<and>
         B * (NONCE_SIZE - HASH_SIZE) = HASH_SIZE * 8191 * B \<and>
         load_words (mem (round1 h gl B st n s))
             (cache (round1 h gl B st n s) + of_nat (B * (NONCE_SIZE - HASH_SIZE))) (8 * B) =
           map (snd (h gl [] (tmpl_words B (patch_nonces B st n s) T1))) [0..<8 * B] \<and>
         lane_bytes B b (t2 (round1 h gl B st n s)) 0 8 =
           lane_bytes B b (snd (h gl [] (tmpl_words B (patch_nonces B st n s) T1))) 0 8 \<and>
         lane_bytes B b (t2 (round1 h gl B st n s)) 8 8 =
           lane_bytes B b (t2 (patch_nonces B st n s)) 8 8 \<and>
         t2 (hash_rounds h gl B st n s) = t2 (round1 h gl B st n s) \<and>
         t2 (noncegen_batch h gl B st n s) = t2 (round1 h gl B st n s)"
proof -
  let ?out = "map (snd (h gl [] (tmpl_words B (patch_nonces B st n s) T1))) [0..<8 * B]"
  have "4 * length ?out \<le> 2 ^ 64" using assms by auto
  from load_words_store_words[OF this, of "cache s + of_nat (B * (NONCE_SIZE - HASH_SIZE))" "mem s"]
  have ld: "load_words (mem (round1 h gl B st n s))
      (cache (round1 h gl B st n s) + of_nat (B * (NONCE_SIZE - HASH_SIZE))) (8 * B) = ?out"
    by (simp add: mem_round1 cache_round1 del: of_nat_mult)
  have idx: "B * (NONCE_SIZE - HASH_SIZE) = HASH_SIZE * 8191 * B"
    by (simp add: NONCE_SIZE_def HASH_SIZE_def HASH_CAP_def SCOOP_SIZE_def)
  have lo: "lane_bytes B b (t2 (round1 h gl B st n s)) 0 8 =
      lane_bytes B b (snd (h gl [] (tmpl_words B (patch_nonces B st n s) T1))) 0 8"
    by (rule lane_bytes_cong)
       (use assms(2) in \<open>simp add: t2_round1[OF assms(1)] lane_less[OF assms(2)]\<close>)
  have hi: "lane_bytes B b (t2 (round1 h gl B st n s)) 8 8 =
      lane_bytes B b (t2 (patch_nonces B st n s)) 8 8"
  proof (rule lane_bytes_cong)
    fix w :: nat
    have "\<not> (8 + w) * B + b < 8 * B" by (simp add: add_mult_distrib)
    then show "t2 (round1 h gl B st n s) ((8 + w) * B + b) =
        t2 (patch_nonces B st n s) ((8 + w) * B + b)"
      by (simp add: t2_round1[OF assms(1)])
  qed
  from hash_log_round1[of h gl B st n s] idx ld lo hi t2_hash_rounds[of h gl B st n s]
    t2_after_round1[of h gl B st n s]
  show ?thesis by blast
qed

theorem first_hash_into_t2_witness:
  "hash_log (round1 h0 () 8 0 0 blank) =
     [((), \<lparr>message = None, tmpl = T1, dst = Cache (8 * (NONCE_SIZE - HASH_SIZE)), len = 0\<rparr>)] \<and>
   lane_bytes 8 2 (t2 (round1 h0 () 8 0 0 blank)) 0 8 = lane_bytes 8 2 (\<lambda>j. 0) 0 8 \<and>
   t2 (noncegen_batch h0 () 8 0 0 blank) = t2 (round1 h0 () 8 0 0 blank)"
  using first_hash_into_t2[of 8 2 h0 "()" 0 0 blank]
  by (simp add: h0_def) (simp add: blank_def)

text \<open>C9. When find_best_deadline returns, every byte of memory outside the eight bytes
  at best_deadline and the eight bytes at best_offset is what it was before the call: the
  function itself stores through these two pointers only, and mshabal_deadline_fast, which
  is not among the sources, is modelled as reading the cache slabs in place. So the bytes
  of the data cache and of the gensig buffer are unchanged, as long as the two result
  cells do not lie inside them.\<close>

theorem find_best_deadline_frame:
  assumes "find_best_deadline sh gl B simd data scoop nonce_count gensig
      best_deadline best_offset m = Some m'"
  shows "(\<forall>a. a \<notin> region best_deadline 8 \<union> region best_offset 8 \<longrightarrow> m' a = m a) \<and>
         (region data sz \<inter> (region best_deadline 8 \<union> region best_offset 8) = {} \<longrightarrow>
            load_bytes m' data sz = load_bytes m data sz) \<and>
         (region gensig 32 \<inter> (region best_deadline 8 \<union> region best_offset 8) = {} \<longrightarrow>
            load_bytes m' gensig 32 = load_bytes m gensig 32)"
proof -
  have w: "\<forall>a. a \<notin> region best_deadline 8 \<union> region best_offset 8 \<longrightarrow> m' a = m a"
    using find_best_deadline_writes[OF assms] by blast
  from load_bytes_frame[OF w] w show ?thesis by blast
qed

theorem find_best_deadline_frame_witness:
  "(\<exists>m'. find_best_deadline_avx2 sh0 () (\<lambda>j. 0, \<lambda>j. 0) 0x10F0 0 8 0x200 0x10 0x20 m0 = Some m' \<and>
      m' 0x10F0 = m0 0x10F0 \<and> m' 0x200 = m0 0x200 \<and> m' 0x30 = m0 0x30)"
proof -
  have r: "find_best_deadline sh0 () 8 (\<lambda>j. 0, \<lambda>j. 0) 0x10F0 0 8 0x200 0x10 0x20 m0 =
      Some (deadline_batch sh0 8 ()
                  (map (fst (prepare_inputs m0 0x200 write_term 8 (\<lambda>j. 0, \<lambda>j. 0))) [0..<8 * 8])
                  (map (snd (prepare_inputs m0 0x200 write_term 8 (\<lambda>j. 0, \<lambda>j. 0))) [0..<8 * 8])
                  0x10F0 0 (4095 - 0) 0x10 0x20 0 m0)"
    by (subst find_best_deadline_returns) simp_all
  from find_best_deadline_frame[OF r] show ?thesis
    by (simp add: find_best_deadline_avx2_def r region_def)
qed

text \<open>C1. A call of find_best_deadline with \<open>*best_deadline\<close> seeded to 0, for a
  nonce_count that is a positive multiple of B and a scoop up to 4095, returns with
  \<open>*best_deadline\<close> the minimum of the deadlines of the nonces 0 to nonce_count - 1 and
  \<open>*best_offset\<close> the smallest index that attains it. The zero sentinel is set aside by
  the hypothesis that no deadline is zero; the two result cells overlap neither each
  other nor the cache, as for any caller that passes two variables of its own.\<close>

theorem best_deadline_is_minimum:
  assumes "B = 8 \<or> B = 16" and "B dvd unat nonce_count" and "0 < unat nonce_count"
    and "scoop \<le> 4095"
    and "load64 m best_deadline = 0"
    and "region best_deadline 8 \<inter> region best_offset 8 = {}"
    and "region data (unat nonce_count * NONCE_SIZE) \<inter>
        (region best_deadline 8 \<union> region best_offset 8) = {}"
    and "\<forall>i<unat nonce_count. nonce_deadline sh gl B simd data scoop gensig m i \<noteq> 0"
  shows "\<exists>m'. find_best_deadline sh gl B simd data scoop nonce_count gensig
            best_deadline best_offset m = Some m' \<and>
          load64 m' best_deadline =
            Min (nonce_deadline sh gl B simd data scoop gensig m ` {i. i < unat nonce_count}) \<and>
          unat (load64 m' best_offset) < unat nonce_count \<and>
          nonce_deadline sh gl B simd data scoop gensig m (unat (load64 m' best_offset)) =
            load64 m' best_deadline \<and>
          (\<forall>i<unat (load64 m' best_offset).
             load64 m' best_deadline < nonce_deadline sh gl B simd data scoop gensig m i)"
proof -
  let ?d = "nonce_deadline sh gl B simd data scoop gensig m"
  let ?n = "unat nonce_count"
  from find_best_deadline_values[OF assms(1,2,4,6,7), of sh gl simd gensig m]
  obtain m' where m': "find_best_deadline sh gl B simd data scoop nonce_count gensig
      best_deadline best_offset m = Some m'"
    "(load64 m' best_deadline, load64 m' best_offset) =
       fold (best_step ?d) [0..<?n] (0, load64 m best_offset)"
    unfolding assms(5) by blast
  have "?n < 2 ^ 64" using unsigned_less[of nonce_count] by simp
  then have n: "?n \<le> 2 ^ 64" by simp
  from best_fold[OF assms(8) assms(3) n, of "load64 m best_offset"]
  have r: "unat (load64 m' best_offset) < ?n"
    "?d (unat (load64 m' best_offset)) = load64 m' best_deadline"
    "\<forall>j<?n. load64 m' best_deadline \<le> ?d j"
    "\<forall>j<unat (load64 m' best_offset). load64 m' best_deadline < ?d j"
    unfolding m'(2)[symmetric] by simp_all
  have mn: "Min (?d ` {i. i < ?n}) = load64 m' best_deadline"
  proof (rule Min_eqI)
    show "finite (?d ` {i. i < ?n})" by simp
    show "load64 m' best_deadline \<le> y" if "y \<in> ?d ` {i. i < ?n}" for y
      using that r(3) by auto
    have "unat (load64 m' best_offset) \<in> {i. i < ?n}" using r(1) by simp
    then have "?d (unat (load64 m' best_offset)) \<in> ?d ` {i. i < ?n}" by (rule imageI)
    then show "load64 m' best_deadline \<in> ?d ` {i. i < ?n}" by (simp only: r(2))
  qed
  show ?thesis
    by (rule exI[of _ m'], intro conjI)
       (rule m'(1), rule mn[symmetric], rule r(1), rule r(2), rule r(4))
qed

theorem best_deadline_is_minimum_witness:
  "\<exists>m'. find_best_deadline_avx2 sh0 () (\<lambda>j. 0, \<lambda>j. 0) 0x10F0 0 8 0x200 0x10 0x20 m0 = Some m' \<and>
        load64 m' 0x10 = 0x03020101 \<and> load64 m' 0x20 = 4"
proof -
  have u: "unat (8 :: u64) = 8" by simp
  from best_deadline_is_minimum[of 8 8 0 m0 "0x10" "0x20" "0x10F0" sh0 "()"
      "(\<lambda>j. 0, \<lambda>j. 0)" "0x200"]
  obtain m' where m':
    "find_best_deadline sh0 () 8 (\<lambda>j. 0, \<lambda>j. 0) 0x10F0 0 8 0x200 0x10 0x20 m0 = Some m'"
    "load64 m' 0x10 = 0x03020101"
    "unat (load64 m' 0x20) < 8"
    "nonce_deadline sh0 () 8 (\<lambda>j. 0, \<lambda>j. 0) 0x10F0 0 0x200 m0 (unat (load64 m' 0x20)) =
       load64 m' 0x10"
    unfolding u m0_deadline_min using m0_cells m0_deadline_nonzero by auto
  from m0_deadline_4[OF m'(3)] m'(4) m'(2) have "unat (load64 m' 0x20) = 4" by simp
  then have "load64 m' 0x20 = 4" by (simp add: word_unat_eq_iff)
  with m'(1,2) show ?thesis by (simp add: find_best_deadline_avx2_def)
qed




text \<open>C7. For B = 8 and B = 16 and a nonce_count that is a multiple of B,
  find_best_deadline returns, and what it returns is the memory after the updates
  SET_BEST_DEADLINE(d, i + b) of the batches \<open>i = 0, B, 2 * B, \<dots>\<close> in order and, in a
  batch, of the lanes b = 0, \<dots>, B - 1 in order, where the deadline d of lane b is the hash
  of the message \<open>gensig || u1 || u2 || term\<close> of the lane: 32 words, 128 bytes or two
  blocks of 64, with u1 at \<open>data + i * NONCE_SIZE + scoop * SCOOP_SIZE * B\<close> and u2 at
  \<open>data + i * NONCE_SIZE + (4095 - scoop) * SCOOP_SIZE * B + HASH_SIZE * B\<close>, read in the
  memory as it is when the batch starts. The pointers are computed in 64-bit arithmetic;
  for a scoop up to 4095 the mirror scoop \<open>4095 - scoop\<close> does not wrap.\<close>

theorem deadline_message:
  assumes "B = 8 \<or> B = 16" and "B dvd unat nonce_count"
  shows "find_best_deadline sh gl B simd data scoop nonce_count gensig
            best_deadline best_offset m =
           Some (fold (\<lambda>j mj.
                    fold (\<lambda>b. SET_BEST_DEADLINE best_deadline best_offset
                                (sh gl (lane_message B m gensig mj data scoop (of_nat (B * j)) b))
                                (of_nat (B * j) + of_nat b))
                      [0..<B] mj)
                  [0..<unat nonce_count div B] m) \<and>
         length (lane_message B m gensig mj data scoop i b) = 32 \<and>
         (scoop \<le> 4095 \<longrightarrow> unat (4095 - scoop) = 4095 - unat scoop)"
proof -
  have 2: "scoop \<le> 4095 \<longrightarrow> unat (4095 - scoop) = 4095 - unat scoop"
    by (simp add: unat_sub word_le_nat_alt)
  have 3: "(\<lambda>j. deadline_batch sh B gl
            (map (fst (prepare_inputs m gensig write_term B simd)) [0..<8 * B])
            (map (snd (prepare_inputs m gensig write_term B simd)) [0..<8 * B])
            data scoop (4095 - scoop) best_deadline best_offset (of_nat (B * j))) =
      (\<lambda>j mj. fold (\<lambda>b. SET_BEST_DEADLINE best_deadline best_offset
                            (sh gl (lane_message B m gensig mj data scoop (of_nat (B * j)) b))
                            (of_nat (B * j) + of_nat b)) [0..<B] mj)"
    by (rule ext, rule ext) (rule deadline_batch_lanes[OF assms(1)])
  have 1: "find_best_deadline sh gl B simd data scoop nonce_count gensig
            best_deadline best_offset m =
           Some (fold (\<lambda>j mj.
                    fold (\<lambda>b. SET_BEST_DEADLINE best_deadline best_offset
                                (sh gl (lane_message B m gensig mj data scoop (of_nat (B * j)) b))
                                (of_nat (B * j) + of_nat b))
                      [0..<B] mj)
                  [0..<unat nonce_count div B] m)"
    by (simp only: find_best_deadline_returns[OF assms] 3)
  show ?thesis
    by (intro conjI) (rule 1, rule length_lane_message, rule 2)
qed

theorem deadline_message_witness:
  "find_best_deadline_avx2 sh0 () (\<lambda>j. 0, \<lambda>j. 0) 0x10F0 0 8 0x200 0x10 0x20 m0 =
     Some (SET_BEST_DEADLINE 0x10 0x20 0x0F0E0D0D 7
          (SET_BEST_DEADLINE 0x10 0x20 0x0B0A0909 6
          (SET_BEST_DEADLINE 0x10 0x20 0x07060505 5
          (SET_BEST_DEADLINE 0x10 0x20 0x03020101 4
          (SET_BEST_DEADLINE 0x10 0x20 0xFFFEFDFD 3
          (SET_BEST_DEADLINE 0x10 0x20 0xFBFAF9F9 2
          (SET_BEST_DEADLINE 0x10 0x20 0xF7F6F5F5 1
          (SET_BEST_DEADLINE 0x10 0x20 0xF3F2F1F1 0 m0)))))))) \<and>
   lane_message 8 m0 0x200 m0 0x10F0 0 0 4 =
     [0x03020100, 0x07060504, 0x0B0A0908, 0x0F0E0D0C, 0x13121110, 0x17161514, 0x1B1A1918,
      0x1F1E1D1C,
      0x03020100, 0x23222120, 0x43424140, 0x63626160, 0x83828180, 0xA3A2A1A0, 0xC3C2C1C0,
      0xE3E2E1E0,
      0x03020100, 0x23222120, 0x43424140, 0x63626160, 0x83828180, 0xA3A2A1A0, 0xC3C2C1C0,
      0xE3E2E1E0,
      0x80, 0, 0, 0, 0, 0, 0, 0]"
proof -
  have m: "lane_message 8 m0 0x200 m0 0x10F0 0 0 4 =
     [0x03020100, 0x07060504, 0x0B0A0908, 0x0F0E0D0C, 0x13121110, 0x17161514, 0x1B1A1918,
      0x1F1E1D1C,
      0x03020100, 0x23222120, 0x43424140, 0x63626160, 0x83828180, 0xA3A2A1A0, 0xC3C2C1C0,
      0xE3E2E1E0,
      0x03020100, 0x23222120, 0x43424140, 0x63626160, 0x83828180, 0xA3A2A1A0, 0xC3C2C1C0,
      0xE3E2E1E0,
      0x80, 0, 0, 0, 0, 0, 0, 0]"
    by (simp add: lane_message_def load_words_def load32_def m0_def word32_of_def
        NONCE_SIZE_def HASH_CAP_def SCOOP_SIZE_def HASH_SIZE_def upt_conv_Cons)
  have d: "sh0 () (lane_message 8 m0 0x200 m0 0x10F0 0 0 b) =
      ucast (load32 m0 (0x10F0 + of_nat (4 * b))) + 1" for b
    by (simp add: sh0_def lane_message_def load_words_def nth_append upt_conv_Cons
        del: of_nat_mult)
  have u: "unat (8 :: u64) div 8 = 1" "8 dvd unat (8 :: u64)" by simp_all
  from deadline_message[of 8 8 sh0 "()" "(\<lambda>j. 0, \<lambda>j. 0)" "0x10F0" 0 "0x200" "0x10" "0x20" m0]
  have "find_best_deadline sh0 () 8 (\<lambda>j. 0, \<lambda>j. 0) 0x10F0 0 8 0x200 0x10 0x20 m0 =
      Some (fold (\<lambda>b. SET_BEST_DEADLINE 0x10 0x20
                     (ucast (load32 m0 (0x10F0 + of_nat (4 * b))) + 1) (of_nat b)) [0..<8] m0)"
    unfolding u by (simp add: d del: of_nat_mult upt_rec_numeral)
  then show ?thesis
    unfolding find_best_deadline_avx2_def m
    by (simp add: upt_conv_Cons load32_def m0_def word32_of_def)
qed

end
